theory Spec2Isabelle
  imports Complex_Main "HOL-Library.AList"
begin

section \<open>Strings and JSON values\<close>

text \<open>
  A JavaScript string is a sequence of UTF-16 code units; \<open>length\<close> counts code units,
  as \<^verbatim>\<open>.length\<close> does, and a regular expression without the \<^verbatim>\<open>u\<close> flag matches
  code unit by code unit. ASCII literals are written through \<open>ustr\<close>.
\<close>

type_synonym jchar = nat
type_synonym jstring = "jchar list"

definition ustr :: "string \<Rightarrow> jstring" where
  "ustr s = map of_char s"

text \<open>
  The values a field of a parsed JSON frame can hold (\<open>JUndefined\<close>: the field is
  absent). An object or array is \<open>JObject\<close> when it can be converted to a string
  and \<open>JUnprintable\<close> when the conversion raises a TypeError, as for
  \<^verbatim>\<open>{"toString": 1}\<close>.
\<close>

datatype jsval =
  JUndefined | JNull | JBool bool | JNum int | JStr jstring | JObject | JUnprintable

fun truthy :: "jsval \<Rightarrow> bool" where
  "truthy JUndefined = False"
| "truthy JNull = False"
| "truthy (JBool b) = b"
| "truthy (JNum n) = (n \<noteq> 0)"
| "truthy (JStr s) = (s \<noteq> [])"
| "truthy JObject = True"
| "truthy JUnprintable = True"

section \<open>config.js\<close>

definition MAX_MESSAGES_PER_MINUTE :: nat where "MAX_MESSAGES_PER_MINUTE = 10"
definition RATE_LIMIT_WINDOW :: int where "RATE_LIMIT_WINDOW = 60000"
definition MESSAGE_DELAY :: nat where "MESSAGE_DELAY = 100"
definition MAX_MESSAGE_LENGTH :: nat where "MAX_MESSAGE_LENGTH = 500"
definition MIN_MESSAGE_LENGTH :: nat where "MIN_MESSAGE_LENGTH = 1"
definition MAX_USERNAME_LENGTH :: nat where "MAX_USERNAME_LENGTH = 30"
definition MIN_USERNAME_LENGTH :: nat where "MIN_USERNAME_LENGTH = 2"

section \<open>String helpers of the controller\<close>

text \<open>
  \<^verbatim>\<open>String.prototype.trim\<close> removes WhiteSpace and LineTerminator code units from both
  ends; the class \<^verbatim>\<open>\s\<close> of a regular expression is the same set.
\<close>

definition isWhiteSpace :: "jchar \<Rightarrow> bool" where
  "isWhiteSpace c \<longleftrightarrow>
     (0x09 \<le> c \<and> c \<le> 0x0D) \<or> c = 0x20 \<or> c = 0xA0 \<or> c = 0x1680 \<or>
     (0x2000 \<le> c \<and> c \<le> 0x200A) \<or> c = 0x2028 \<or> c = 0x2029 \<or> c = 0x202F \<or>
     c = 0x205F \<or> c = 0x3000 \<or> c = 0xFEFF"

definition trim :: "jstring \<Rightarrow> jstring" where
  "trim s = rev (dropWhile isWhiteSpace (rev (dropWhile isWhiteSpace s)))"

text \<open>\<^verbatim>\<open>str.replace(/c/g, r)\<close> for a single literal character \<open>c\<close>.\<close>

definition replaceAll :: "jchar \<Rightarrow> jstring \<Rightarrow> jstring \<Rightarrow> jstring" where
  "replaceAll c r str = concat (map (\<lambda>x. if x = c then r else [x]) str)"

text \<open>
  \<^verbatim>\<open>sanitize(str)\<close> on a string: six chained replacements, in the source's order.
  The code units are \<open>&\<close> 0x26, \<open><\<close> 0x3C, \<open>>\<close> 0x3E, the double quote 0x22, the
  apostrophe 0x27 and \<open>/\<close> 0x2F. (On a value that is not a string the source returns
  it unchanged; both call sites pass a trimmed string.)
\<close>

definition sanitize :: "jstring \<Rightarrow> jstring" where
  "sanitize str =
     (let s1 = replaceAll 0x26 (ustr ''&amp;'') str;
          s2 = replaceAll 0x3C (ustr ''&lt;'') s1;
          s3 = replaceAll 0x3E (ustr ''&gt;'') s2;
          s4 = replaceAll 0x22 (ustr ''&quot;'') s3;
          s5 = replaceAll 0x27 (ustr ''&#x27;'') s4;
          s6 = replaceAll 0x2F (ustr ''&#x2F;'') s5
      in s6)"

subsection \<open>validateUsername\<close>

datatype username_error =
    UsernameNotString   \<comment> \<open>'Nombre de usuario invalido'\<close>
  | UsernameTooShort    \<comment> \<open>'El nombre debe tener al menos 2 caracteres'\<close>
  | UsernameTooLong     \<comment> \<open>'El nombre no puede exceder 30 caracteres'\<close>
  | UsernameBadChars    \<comment> \<open>'El nombre contiene caracteres no permitidos'\<close>

text \<open>
  One character of the class \<^verbatim>\<open>[a-zA-Z0-9...\s_-]\<close>: the twelve non-ASCII letters of
  the source are a-acute E1, e-acute E9, i-acute ED, o-acute F3, u-acute FA, their
  capitals C1, C9, CD, D3, DA, n-tilde F1 and N-tilde D1 (each one code unit in the
  source file).
\<close>

definition validPatternChar :: "jchar \<Rightarrow> bool" where
  "validPatternChar c \<longleftrightarrow>
     (0x61 \<le> c \<and> c \<le> 0x7A) \<or> (0x41 \<le> c \<and> c \<le> 0x5A) \<or> (0x30 \<le> c \<and> c \<le> 0x39) \<or>
     c = 0xE1 \<or> c = 0xE9 \<or> c = 0xED \<or> c = 0xF3 \<or> c = 0xFA \<or>
     c = 0xC1 \<or> c = 0xC9 \<or> c = 0xCD \<or> c = 0xD3 \<or> c = 0xDA \<or>
     c = 0xF1 \<or> c = 0xD1 \<or>
     isWhiteSpace c \<or> c = 0x5F \<or> c = 0x2D"

text \<open>\<^verbatim>\<open>/^[...]+$/.test(s)\<close>: at least one character, every one in the class.\<close>

definition validPattern_test :: "jstring \<Rightarrow> bool" where
  "validPattern_test s \<longleftrightarrow> s \<noteq> [] \<and> list_all validPatternChar s"

definition validateUsername :: "jsval \<Rightarrow> username_error + jstring" where
  "validateUsername username =
     (case username of
        JStr s \<Rightarrow>
          if \<not> truthy username then Inl UsernameNotString
          else
            let trimmed = trim s in
            if length trimmed < MIN_USERNAME_LENGTH then Inl UsernameTooShort
            else if length trimmed > MAX_USERNAME_LENGTH then Inl UsernameTooLong
            else if \<not> validPattern_test trimmed then Inl UsernameBadChars
            else Inr trimmed
      | _ \<Rightarrow> Inl UsernameNotString)"

subsection \<open>validateMessageContent\<close>

datatype content_error =
    ContentNotString   \<comment> \<open>'Contenido invalido'\<close>
  | ContentTooShort    \<comment> \<open>config.MESSAGES.MESSAGE_TOO_SHORT\<close>
  | ContentTooLong     \<comment> \<open>config.MESSAGES.MESSAGE_TOO_LONG\<close>

definition validateMessageContent :: "jsval \<Rightarrow> content_error + jstring" where
  "validateMessageContent content =
     (case content of
        JStr s \<Rightarrow>
          if \<not> truthy content then Inl ContentNotString
          else
            let trimmed = trim s in
            if length trimmed < MIN_MESSAGE_LENGTH then Inl ContentTooShort
            else if length trimmed > MAX_MESSAGE_LENGTH then Inl ContentTooLong
            else Inr trimmed
      | _ \<Rightarrow> Inl ContentNotString)"

section \<open>rateLimiter.js\<close>

text \<open>
  \<open>messageTracking\<close> maps an identifier to its timestamps (milliseconds, as
  \<^verbatim>\<open>Date.now()\<close> returns them: integers). The clock reading of a call is the
  parameter \<open>now\<close>.
\<close>

type_synonym tracking = "jstring \<rightharpoonup> int list"

record limit_result =
  allowed :: bool
  remaining :: int
  resetIn :: "int option"   \<comment> \<open>\<open>None\<close>: NaN\<close>

text \<open>
  \<^verbatim>\<open>Math.ceil(x / 1000)\<close> on an integer \<open>x\<close>: for differences of clock readings the
  rounding of the quotient never reaches the next integer, so the result is the
  ceiling of the exact quotient (lemma \<open>ceil_div1000_ceiling\<close>).
\<close>

definition ceil_div1000 :: "int \<Rightarrow> int" where
  "ceil_div1000 x = - ((- x) div 1000)"

definition getClientIdentifier :: "jstring \<Rightarrow> jstring option \<Rightarrow> jstring" where
  "getClientIdentifier clientId ip =
     (case ip of
        Some a \<Rightarrow> if a \<noteq> [] \<and> a \<noteq> ustr ''unknown'' then ustr ''ip:'' @ a
                  else ustr ''client:'' @ clientId
      | None \<Rightarrow> ustr ''client:'' @ clientId)"

text \<open>\<^verbatim>\<open>this.messageTracking.get(identifier) || []\<close>\<close>

definition tracked :: "tracking \<Rightarrow> jstring \<Rightarrow> int list" where
  "tracked messageTracking identifier =
     (case messageTracking identifier of Some l \<Rightarrow> l | None \<Rightarrow> [])"

definition checkLimit ::
  "tracking \<Rightarrow> int \<Rightarrow> jstring \<Rightarrow> jstring option \<Rightarrow> limit_result \<times> tracking" where
  "checkLimit messageTracking now clientId ip =
     (let identifier = getClientIdentifier clientId ip;
          windowStart = now - RATE_LIMIT_WINDOW;
          stored = tracked messageTracking identifier;
          timestamps = filter (\<lambda>ts. ts > windowStart) stored
      in
        if length timestamps \<ge> MAX_MESSAGES_PER_MINUTE then
          (\<lparr>allowed = False, remaining = 0,
            resetIn = (case timestamps of
                         oldestTimestamp # _ \<Rightarrow>
                           Some (ceil_div1000 (oldestTimestamp + RATE_LIMIT_WINDOW - now))
                       | [] \<Rightarrow> None)\<rparr>,
           messageTracking)
        else
          (let timestamps' = timestamps @ [now] in
           (\<lparr>allowed = True,
             remaining = int MAX_MESSAGES_PER_MINUTE - int (length timestamps'),
             resetIn = Some (ceil_div1000 RATE_LIMIT_WINDOW)\<rparr>,
            messageTracking(identifier \<mapsto> timestamps'))))"

text \<open>A sequence of calls for one client, at the given clock readings, in order.\<close>

fun checkLimit_seq ::
  "tracking \<Rightarrow> jstring \<Rightarrow> jstring option \<Rightarrow> int list \<Rightarrow> limit_result list \<times> tracking" where
  "checkLimit_seq mt clientId ip [] = ([], mt)"
| "checkLimit_seq mt clientId ip (now # nows) =
     (let (r, mt') = checkLimit mt now clientId ip;
          (rs, mt'') = checkLimit_seq mt' clientId ip nows
      in (r # rs, mt''))"

section \<open>clients.js\<close>

text \<open>
  A socket of the transport layer, as far as the managers look at it:
  \<^verbatim>\<open>readyState\<close> (1 is OPEN) and whether \<^verbatim>\<open>send\<close> raises.
\<close>

type_synonym clientId = jstring

record websocket =
  readyState :: nat
  sendThrows :: bool

text \<open>
  An entry of the \<^verbatim>\<open>clients\<close> map (its \<^verbatim>\<open>id\<close> field repeats the key and is
  left out). \<open>username = None\<close> is \<^verbatim>\<open>null\<close>.
\<close>

record client =
  ws :: websocket
  username :: "jstring option"
  ip :: jstring
  connectedAt :: int
  lastActivity :: int

datatype message =
  Message (m_clientId: clientId) (m_username: jstring) (m_content: jstring) (m_timestamp: int)

type_synonym users = "(jstring \<times> int) list"

datatype validation_error =
    FormatInvalid       \<comment> \<open>'Formato invalido'\<close>
  | TypeNotSpecified    \<comment> \<open>'Tipo de mensaje no especificado'\<close>

datatype error_message =
    MsgBadJson                      \<comment> \<open>'Formato de mensaje invalido'\<close>
  | MsgValidation validation_error
  | MsgUsername username_error
  | MsgUsernameTaken                \<comment> \<open>config.MESSAGES.USERNAME_TAKEN\<close>
  | MsgNotJoined                    \<comment> \<open>'Debes unirte al chat primero'\<close>
  | MsgContent content_error
  | MsgRateLimit "int option"       \<comment> \<open>'Limite excedido. Espera N segundos.'\<close>
  | MsgUnsupportedType              \<comment> \<open>'Tipo de mensaje no soportado'\<close>
  | MsgServerError                  \<comment> \<open>config.MESSAGES.SERVER_ERROR\<close>

text \<open>The frames the server sends, by their \<^verbatim>\<open>type\<close> field.\<close>

datatype payload =
    ConnectionP clientId int
  | JoinedP jstring users
  | UserJoinedP jstring int users
  | UserLeftP jstring int users
  | MessageP jstring jstring int
  | ErrorP error_message int
  | PongP int

text \<open>
  The state of the three singletons: the \<^verbatim>\<open>clients\<close> map in insertion order, the
  limiter's \<^verbatim>\<open>messageTracking\<close>, the controller's \<^verbatim>\<open>messageQueue\<close> and
  \<^verbatim>\<open>isProcessingQueue\<close>. Three fields record effects: \<open>sent\<close> lists the frames
  handed to a socket's \<^verbatim>\<open>send\<close> without raising, in order; \<open>broadcasts\<close> lists the
  payload of every call of \<^verbatim>\<open>broadcast\<close>, in order; \<open>sleeping\<close> counts the
  activations of \<^verbatim>\<open>processMessageQueue\<close> suspended at \<^verbatim>\<open>await this.sleep(...)\<close>.
\<close>

record state =
  clients :: "(clientId \<times> client) list"
  messageTracking :: tracking
  messageQueue :: "message list"
  isProcessingQueue :: bool
  sleeping :: nat
  sent :: "(clientId \<times> payload) list"
  broadcasts :: "payload list"

definition initial :: state where
  "initial = \<lparr>clients = [], messageTracking = Map.empty, messageQueue = [],
     isProcessingQueue = False, sleeping = 0, sent = [], broadcasts = []\<rparr>"

definition getClient :: "state \<Rightarrow> clientId \<Rightarrow> client option" where
  "getClient st clientId = map_of (clients st) clientId"

text \<open>
  \<^verbatim>\<open>addClient\<close>: the generated id, the socket and the address read from the request
  are inputs. \<^verbatim>\<open>Map.set\<close> keeps the position of a key that is already present.
\<close>

definition addClient ::
  "state \<Rightarrow> int \<Rightarrow> clientId \<Rightarrow> websocket \<Rightarrow> jstring \<Rightarrow> clientId \<times> state" where
  "addClient st now clientId sock addr =
     (clientId,
      st\<lparr>clients := AList.update clientId
           \<lparr>ws = sock, username = None, ip = addr, connectedAt = now, lastActivity = now\<rparr>
           (clients st)\<rparr>)"

definition removeClient :: "state \<Rightarrow> clientId \<Rightarrow> client option \<times> state" where
  "removeClient st clientId =
     (case getClient st clientId of
        Some c \<Rightarrow> (Some c, st\<lparr>clients := AList.delete clientId (clients st)\<rparr>)
      | None \<Rightarrow> (None, st))"

definition setUsername :: "state \<Rightarrow> int \<Rightarrow> clientId \<Rightarrow> jstring \<Rightarrow> bool \<times> state" where
  "setUsername st now clientId name =
     (case getClient st clientId of
        Some c \<Rightarrow>
          (True, st\<lparr>clients := AList.update clientId
                      (c\<lparr>username := Some name, lastActivity := now\<rparr>) (clients st)\<rparr>)
      | None \<Rightarrow> (False, st))"

definition isUsernameTaken :: "state \<Rightarrow> jstring \<Rightarrow> bool" where
  "isUsernameTaken st name = list_ex (\<lambda>(i, c). username c = Some name) (clients st)"

definition updateActivity :: "state \<Rightarrow> int \<Rightarrow> clientId \<Rightarrow> state" where
  "updateActivity st now clientId =
     (case getClient st clientId of
        Some c \<Rightarrow> st\<lparr>clients := AList.update clientId (c\<lparr>lastActivity := now\<rparr>) (clients st)\<rparr>
      | None \<Rightarrow> st)"

text \<open>\<^verbatim>\<open>if (client.username)\<close>: neither \<^verbatim>\<open>null\<close> nor the empty string.\<close>

definition hasUsername :: "client \<Rightarrow> bool" where
  "hasUsername c = (case username c of Some n \<Rightarrow> n \<noteq> [] | None \<Rightarrow> False)"

fun activeUsers :: "(clientId \<times> client) list \<Rightarrow> users" where
  "activeUsers [] = []"
| "activeUsers ((i, c) # rest) =
     (case username c of
        Some n \<Rightarrow> if n \<noteq> [] then (n, connectedAt c) # activeUsers rest else activeUsers rest
      | None \<Rightarrow> activeUsers rest)"

definition getActiveUsers :: "state \<Rightarrow> users" where
  "getActiveUsers st = activeUsers (clients st)"

definition sendToClient :: "state \<Rightarrow> clientId \<Rightarrow> payload \<Rightarrow> bool \<times> state" where
  "sendToClient st clientId data =
     (case getClient st clientId of
        Some c \<Rightarrow>
          if readyState (ws c) = 1 then
            (if sendThrows (ws c) then (False, st)
             else (True, st\<lparr>sent := sent st @ [(clientId, data)]\<rparr>))
          else (False, st)
      | None \<Rightarrow> (False, st))"

text \<open>
  The loop of \<^verbatim>\<open>broadcast\<close> over the entries, in map order: the success count, the
  failure count and the ids whose socket took the frame.
  \<^verbatim>\<open>excludeClientId && clientId === excludeClientId\<close> skips an entry.
\<close>

definition excluded :: "clientId option \<Rightarrow> clientId \<Rightarrow> bool" where
  "excluded excludeClientId clientId =
     (case excludeClientId of Some e \<Rightarrow> e \<noteq> [] \<and> clientId = e | None \<Rightarrow> False)"

fun broadcast_loop ::
  "clientId option \<Rightarrow> (clientId \<times> client) list \<Rightarrow> nat \<times> nat \<times> clientId list" where
  "broadcast_loop excludeClientId [] = (0, 0, [])"
| "broadcast_loop excludeClientId ((i, c) # rest) =
     (let (successCount, failCount, got) = broadcast_loop excludeClientId rest in
      if excluded excludeClientId i then (successCount, failCount, got)
      else if readyState (ws c) = 1 then
        (if sendThrows (ws c) then (successCount, failCount + 1, got)
         else (successCount + 1, failCount, i # got))
      else (successCount, failCount, got))"

definition broadcast :: "state \<Rightarrow> payload \<Rightarrow> clientId option \<Rightarrow> (nat \<times> nat) \<times> state" where
  "broadcast st data excludeClientId =
     (let (successCount, failCount, got) = broadcast_loop excludeClientId (clients st) in
      ((successCount, failCount),
       st\<lparr>sent := sent st @ map (\<lambda>i. (i, data)) got,
          broadcasts := broadcasts st @ [data]\<rparr>))"

definition cleanupDeadConnections :: "state \<Rightarrow> int \<Rightarrow> nat \<times> state" where
  "cleanupDeadConnections st now =
     (let timeout = 5 * 60 * 1000;
          deadClients =
            map fst (filter (\<lambda>(i, c). now - lastActivity c > timeout \<or> readyState (ws c) \<noteq> 1)
                       (clients st))
      in (length deadClients, foldl (\<lambda>s i. snd (removeClient s i)) st deadClients))"

section \<open>The chat controller\<close>

text \<open>
  What \<^verbatim>\<open>JSON.parse(rawData)\<close> gives: it raises, or returns a value that is not an
  object, or an object, of which the handlers read three fields.
\<close>

datatype data = Data (data_type: jsval) (data_username: jsval) (data_content: jsval)

datatype raw = Unparseable | NonObject | Object data

definition validateMessage :: "raw \<Rightarrow> validation_error + data" where
  "validateMessage r =
     (case r of
        Object d \<Rightarrow> if \<not> truthy (data_type d) then Inl TypeNotSpecified else Inr d
      | _ \<Rightarrow> Inl FormatInvalid)"

definition sendError :: "state \<Rightarrow> int \<Rightarrow> clientId \<Rightarrow> error_message \<Rightarrow> state" where
  "sendError st now clientId msg = snd (sendToClient st clientId (ErrorP msg now))"

text \<open>
  Every handler runs to its end without yielding; its clock readings are one
  parameter \<open>now\<close>.
\<close>

definition handleJoin :: "state \<Rightarrow> int \<Rightarrow> clientId \<Rightarrow> data \<Rightarrow> state" where
  "handleJoin st now clientId d =
     (case getClient st clientId of
        None \<Rightarrow> st
      | Some c \<Rightarrow>
          (case validateUsername (data_username d) of
             Inl e \<Rightarrow> sendError st now clientId (MsgUsername e)
           | Inr valid \<Rightarrow>
               let name = sanitize valid in
               if isUsernameTaken st name then sendError st now clientId MsgUsernameTaken
               else
                 let st1 = snd (setUsername st now clientId name);
                     st2 = snd (sendToClient st1 clientId (JoinedP name (getActiveUsers st1)));
                     st3 = snd (broadcast st2 (UserJoinedP name now (getActiveUsers st2))
                                  (Some clientId))
                 in st3))"

text \<open>
  The loop of \<^verbatim>\<open>processMessageQueue\<close> from its head, on the queue it finds; at the
  \<^verbatim>\<open>await\<close> the activation is suspended and the state is returned to the caller.
\<close>

fun processLoop :: "message list \<Rightarrow> state \<Rightarrow> state" where
  "processLoop [] st = st\<lparr>messageQueue := [], isProcessingQueue := False\<rparr>"
| "processLoop (m # rest) st =
     (let st1 = snd (broadcast (st\<lparr>messageQueue := rest\<rparr>)
                      (MessageP (m_username m) (m_content m) (m_timestamp m)) None)
      in if rest \<noteq> [] \<and> MESSAGE_DELAY > 0 then st1\<lparr>sleeping := sleeping st1 + 1\<rparr>
         else processLoop rest st1)"

definition processMessageQueue :: "state \<Rightarrow> state" where
  "processMessageQueue st = processLoop (messageQueue st) (st\<lparr>isProcessingQueue := True\<rparr>)"

text \<open>The timer of a suspended activation fires: it goes on at the loop's head.\<close>

definition resume :: "state \<Rightarrow> state" where
  "resume st =
     (if sleeping st > 0 then processLoop (messageQueue st) (st\<lparr>sleeping := sleeping st - 1\<rparr>)
      else st)"

definition queueMessage :: "state \<Rightarrow> message \<Rightarrow> state" where
  "queueMessage st m =
     (let st1 = st\<lparr>messageQueue := messageQueue st @ [m]\<rparr> in
      if \<not> isProcessingQueue st1 then processMessageQueue st1 else st1)"

definition handleChatMessage :: "state \<Rightarrow> int \<Rightarrow> clientId \<Rightarrow> data \<Rightarrow> state" where
  "handleChatMessage st now clientId d =
     (case getClient st clientId of
        None \<Rightarrow> st
      | Some c \<Rightarrow>
          (case username c of
             None \<Rightarrow> sendError st now clientId MsgNotJoined
           | Some name \<Rightarrow>
               if name = [] then sendError st now clientId MsgNotJoined
               else
                 (case validateMessageContent (data_content d) of
                    Inl e \<Rightarrow> sendError st now clientId (MsgContent e)
                  | Inr valid \<Rightarrow>
                      let content = sanitize valid;
                          (rateCheck, mt) = checkLimit (messageTracking st) now clientId (Some (ip c));
                          st1 = st\<lparr>messageTracking := mt\<rparr>
                      in if \<not> allowed rateCheck
                         then sendError st1 now clientId (MsgRateLimit (resetIn rateCheck))
                         else queueMessage st1 (Message clientId name content now))))"

definition handlePing :: "state \<Rightarrow> int \<Rightarrow> clientId \<Rightarrow> state" where
  "handlePing st now clientId = snd (sendToClient st clientId (PongP now))"

definition handleDisconnect :: "state \<Rightarrow> int \<Rightarrow> clientId \<Rightarrow> state" where
  "handleDisconnect st now clientId =
     (let st1 =
        (case getClient st clientId of
           Some c \<Rightarrow>
             (case username c of
                Some name \<Rightarrow>
                  if name \<noteq> [] then
                    snd (broadcast st
                          (UserLeftP name now (filter (\<lambda>u. fst u \<noteq> name) (getActiveUsers st)))
                          None)
                  else st
              | None \<Rightarrow> st)
         | None \<Rightarrow> st)
      in snd (removeClient st1 clientId))"

definition handleError :: "state \<Rightarrow> int \<Rightarrow> clientId \<Rightarrow> state" where
  "handleError st now clientId =
     (case getClient st clientId of
        Some c \<Rightarrow> sendError st now clientId MsgServerError
      | None \<Rightarrow> st)"

text \<open>
  \<^verbatim>\<open>handleMessage\<close> with its two \<^verbatim>\<open>try\<close> blocks. The inner one catches the
  failure of \<^verbatim>\<open>JSON.parse\<close>. The outer one catches the one exception the body can
  raise: in the \<^verbatim>\<open>default\<close> branch the warning's template literal converts
  \<^verbatim>\<open>data.type\<close> to a string, which raises for \<open>JUnprintable\<close>; the handler then
  answers with SERVER_ERROR, after the activity update.
\<close>

definition handleMessage :: "state \<Rightarrow> int \<Rightarrow> clientId \<Rightarrow> raw \<Rightarrow> state" where
  "handleMessage st now clientId rawData =
     (case rawData of
        Unparseable \<Rightarrow> sendError st now clientId MsgBadJson
      | _ \<Rightarrow>
          (case validateMessage rawData of
             Inl e \<Rightarrow> sendError st now clientId (MsgValidation e)
           | Inr d \<Rightarrow>
               let st1 = updateActivity st now clientId in
               if data_type d = JStr (ustr ''join'') then handleJoin st1 now clientId d
               else if data_type d = JStr (ustr ''message'') then handleChatMessage st1 now clientId d
               else if data_type d = JStr (ustr ''ping'') then handlePing st1 now clientId
               else if data_type d = JUnprintable then sendError st1 now clientId MsgServerError
               else sendError st1 now clientId MsgUnsupportedType))"

section \<open>server.js: the events of the transport\<close>

text \<open>
  The callbacks the server registers, each run at a clock reading: a new connection,
  a frame, a socket error, a close, the periodic cleanup; \<open>SocketChanged\<close> is the
  transport changing a registered socket's state (it does so before it reports the
  close of that socket), \<open>SleepDone\<close> the timer of a suspended queue activation.
\<close>

datatype event =
    Connection clientId websocket jstring
  | FrameReceived clientId raw
  | SocketError clientId
  | SocketClosed clientId
  | CleanupTick
  | SocketChanged clientId websocket
  | SleepDone

definition setSocket :: "state \<Rightarrow> clientId \<Rightarrow> websocket \<Rightarrow> state" where
  "setSocket st clientId sock =
     (case getClient st clientId of
        Some c \<Rightarrow> st\<lparr>clients := AList.update clientId (c\<lparr>ws := sock\<rparr>) (clients st)\<rparr>
      | None \<Rightarrow> st)"

fun step :: "state \<Rightarrow> int \<times> event \<Rightarrow> state" where
  "step st (now, Connection clientId sock addr) =
     (let (i, st1) = addClient st now clientId sock addr
      in snd (sendToClient st1 i (ConnectionP i now)))"
| "step st (now, FrameReceived clientId rawData) = handleMessage st now clientId rawData"
| "step st (now, SocketError clientId) = handleError st now clientId"
| "step st (now, SocketClosed clientId) = handleDisconnect st now clientId"
| "step st (now, CleanupTick) = snd (cleanupDeadConnections st now)"
| "step st (now, SocketChanged clientId sock) = setSocket st clientId sock"
| "step st (now, SleepDone) = resume st"

definition run :: "state \<Rightarrow> (int \<times> event) list \<Rightarrow> state" where
  "run st evs = foldl step st evs"

text \<open>The names held: the non-null \<^verbatim>\<open>username\<close> fields, in map order.\<close>

fun names_of :: "(clientId \<times> client) list \<Rightarrow> jstring list" where
  "names_of [] = []"
| "names_of ((i, c) # rest) =
     (case username c of Some n \<Rightarrow> n # names_of rest | None \<Rightarrow> names_of rest)"

definition names :: "state \<Rightarrow> jstring list" where
  "names st = names_of (clients st)"

definition names_unique :: "state \<Rightarrow> bool" where
  "names_unique st \<longleftrightarrow> distinct (names st)"

section \<open>The specification's character set for names\<close>

text \<open>
  The specification allows "letters including accented, digits, whitespace, underscore,
  hyphen". This is that set on the code units where its words leave no doubt: the
  ASCII letters and the letters of the Latin-1 supplement (C0 to FF without the
  multiplication and division signs), the ASCII digits, the white space of
  \<open>isWhiteSpace\<close>, underscore and hyphen.
\<close>

definition spec_letter :: "jchar \<Rightarrow> bool" where
  "spec_letter c \<longleftrightarrow>
     (0x41 \<le> c \<and> c \<le> 0x5A) \<or> (0x61 \<le> c \<and> c \<le> 0x7A) \<or>
     (0xC0 \<le> c \<and> c \<le> 0xFF \<and> c \<noteq> 0xD7 \<and> c \<noteq> 0xF7)"

definition spec_username_char :: "jchar \<Rightarrow> bool" where
  "spec_username_char c \<longleftrightarrow>
     spec_letter c \<or> (0x30 \<le> c \<and> c \<le> 0x39) \<or> isWhiteSpace c \<or> c = 0x5F \<or> c = 0x2D"

section \<open>The predicates of the sanitization property\<close>

text \<open>The HTML entity of each of the six characters; any other character stands for itself.\<close>

definition html_entity :: "jchar \<Rightarrow> jstring" where
  "html_entity c =
     (if c = 0x26 then ustr ''&amp;''
      else if c = 0x3C then ustr ''&lt;''
      else if c = 0x3E then ustr ''&gt;''
      else if c = 0x22 then ustr ''&quot;''
      else if c = 0x27 then ustr ''&#x27;''
      else if c = 0x2F then ustr ''&#x2F;''
      else [c])"

text \<open>A frame is free of markup when, if it is a chat message, its content has neither
  \<open><\<close> nor \<open>>\<close>.\<close>

fun markup_free :: "payload \<Rightarrow> bool" where
  "markup_free (MessageP name content t) = (0x3C \<notin> set content \<and> 0x3E \<notin> set content)"
| "markup_free _ = True"

definition queued_markup_free :: "message \<Rightarrow> bool" where
  "queued_markup_free m = (0x3C \<notin> set (m_content m) \<and> 0x3E \<notin> set (m_content m))"

text \<open>Every queued message, every broadcast and every frame sent is free of markup.\<close>

definition all_markup_free :: "state \<Rightarrow> bool" where
  "all_markup_free st \<longleftrightarrow>
     list_all queued_markup_free (messageQueue st) \<and>
     list_all markup_free (broadcasts st) \<and>
     list_all (\<lambda>(i, p). markup_free p) (sent st)"

text \<open>The keys of the \<^verbatim>\<open>clients\<close> map are distinct, as the keys of a \<^verbatim>\<open>Map\<close> are.\<close>

definition ids_unique :: "state \<Rightarrow> bool" where
  "ids_unique st \<longleftrightarrow> distinct (map fst (clients st))"

text \<open>The ids a \<^verbatim>\<open>broadcast\<close> without exclusion delivers to.\<close>

definition recipients :: "state \<Rightarrow> clientId list" where
  "recipients st = snd (snd (broadcast_loop None (clients st)))"

section \<open>The delivery queue as a transition system\<close>

text \<open>The frame \<^verbatim>\<open>processMessageQueue\<close> broadcasts for a queued message.\<close>

definition outbound :: "message \<Rightarrow> payload" where
  "outbound m = MessageP (m_username m) (m_content m) (m_timestamp m)"

text \<open>
  The two things that happen to the queue: \<^verbatim>\<open>queueMessage\<close> is called, or the timer
  of a suspended activation fires.
\<close>

datatype queue_op = Enqueue message | TimerFires

fun queue_step :: "state \<Rightarrow> queue_op \<Rightarrow> state" where
  "queue_step st (Enqueue m) = queueMessage st m"
| "queue_step st TimerFires = resume st"

fun enqueued :: "queue_op list \<Rightarrow> message list" where
  "enqueued [] = []"
| "enqueued (Enqueue m # ops) = m # enqueued ops"
| "enqueued (TimerFires # ops) = enqueued ops"

text \<open>
  At most one activation of the loop exists, \<^verbatim>\<open>isProcessingQueue\<close> is set exactly
  while it does, it is suspended in the delay only with a non-empty queue, and with no
  activation the queue is empty.
\<close>

definition single_drain :: "state \<Rightarrow> bool" where
  "single_drain st \<longleftrightarrow>
     sleeping st \<le> 1 \<and> (isProcessingQueue st = (sleeping st = 1)) \<and>
     (if sleeping st = 1 then messageQueue st \<noteq> [] else messageQueue st = [])"

text \<open>No activation and nothing queued.\<close>

definition idle :: "state \<Rightarrow> bool" where
  "idle st \<longleftrightarrow> sleeping st = 0 \<and> \<not> isProcessingQueue st \<and> messageQueue st = []"

text \<open>The frames one broadcast hands to the sockets of the registry, in order.\<close>

definition frames :: "state \<Rightarrow> payload \<Rightarrow> (clientId \<times> payload) list" where
  "frames st p = map (\<lambda>j. (j, p)) (recipients st)"

section \<open>Example states and inputs\<close>

definition ex_nows :: "int list" where
  "ex_nows = [0, 1, 2, 3, 4, 5, 6, 7, 8, 9, 10]"

definition ex_tracking :: tracking where
  "ex_tracking =
     Map.empty(ustr ''client:c1'' \<mapsto>
       [0, 50000, 50001, 50002, 50003, 50004, 50005, 50006, 50007, 50008, 50009])"

definition ex_open :: websocket where
  "ex_open = \<lparr>readyState = 1, sendThrows = False\<rparr>"

definition ex_c1 :: clientId where "ex_c1 = ustr ''c1''"
definition ex_c2 :: clientId where "ex_c2 = ustr ''c2''"

definition ex_join :: "string \<Rightarrow> raw" where
  "ex_join n = Object (Data (JStr (ustr ''join'')) (JStr (ustr n)) JUndefined)"

definition ex_say :: "string \<Rightarrow> raw" where
  "ex_say t = Object (Data (JStr (ustr ''message'')) JUndefined (JStr (ustr t)))"

text \<open>Two connections; the first has joined as Ana.\<close>

definition ex_events :: "(int \<times> event) list" where
  "ex_events =
     [(0, Connection ex_c1 ex_open (ustr ''10.0.0.1'')),
      (1, Connection ex_c2 ex_open (ustr ''10.0.0.2'')),
      (2, FrameReceived ex_c1 (ex_join ''Ana''))]"

definition ex_state :: state where
  "ex_state = run initial ex_events"

text \<open>A state with one message queued behind a suspended activation.\<close>

definition ex_m1 :: message where
  "ex_m1 = Message ex_c1 (ustr ''Ana'') (ustr ''uno'') 10"

definition ex_m2 :: message where
  "ex_m2 = Message ex_c1 (ustr ''Ana'') (ustr ''dos'') 11"

definition ex_draining :: state where
  "ex_draining = ex_state\<lparr>messageQueue := [ex_m1], isProcessingQueue := True, sleeping := 1\<rparr>"

text \<open>
  Both connections have joined; the socket of the first has been closed by the
  transport, which then reports the close.
\<close>

definition ex_closed :: websocket where
  "ex_closed = \<lparr>readyState = 3, sendThrows = False\<rparr>"

definition ex_closing :: state where
  "ex_closing =
     run initial
       (ex_events @
        [(3, FrameReceived ex_c2 (ex_join ''Eva'')), (4, SocketChanged ex_c1 ex_closed)])"

section \<open>Properties of the rate limiter\<close>

lemmas config_defs =
  MAX_MESSAGES_PER_MINUTE_def RATE_LIMIT_WINDOW_def MESSAGE_DELAY_def
  MAX_MESSAGE_LENGTH_def MIN_MESSAGE_LENGTH_def MAX_USERNAME_LENGTH_def
  MIN_USERNAME_LENGTH_def

lemma ceil_div1000_ceiling: "ceil_div1000 x = \<lceil>real_of_int x / 1000\<rceil>"
  unfolding ceil_div1000_def by linarith

lemma checkLimit_reject:
  assumes "length (filter (\<lambda>ts. now - ts < RATE_LIMIT_WINDOW) (tracked mt (getClientIdentifier cid addr))) \<ge> MAX_MESSAGES_PER_MINUTE"
  shows "checkLimit mt now cid addr =
     (\<lparr>allowed = False, remaining = 0,
       resetIn = Some (ceil_div1000 (hd (filter (\<lambda>ts. now - ts < RATE_LIMIT_WINDOW) (tracked mt (getClientIdentifier cid addr))) + RATE_LIMIT_WINDOW - now))\<rparr>, mt)"
proof -
  have eq: "(\<lambda>ts. now - RATE_LIMIT_WINDOW < ts) = (\<lambda>ts. now - ts < RATE_LIMIT_WINDOW)"
    by (rule ext) arith
  from assms have "filter (\<lambda>ts. now - ts < RATE_LIMIT_WINDOW) (tracked mt (getClientIdentifier cid addr)) \<noteq> []"
    by (auto simp: MAX_MESSAGES_PER_MINUTE_def)
  with assms show ?thesis
    by (simp add: checkLimit_def Let_def eq split: list.splits)
qed

lemma checkLimit_accept:
  assumes "length (filter (\<lambda>ts. now - ts < RATE_LIMIT_WINDOW) (tracked mt (getClientIdentifier cid addr))) < MAX_MESSAGES_PER_MINUTE"
  shows "checkLimit mt now cid addr =
     (\<lparr>allowed = True,
       remaining = int MAX_MESSAGES_PER_MINUTE - (int (length (filter (\<lambda>ts. now - ts < RATE_LIMIT_WINDOW) (tracked mt (getClientIdentifier cid addr)))) + 1),
       resetIn = Some 60\<rparr>,
      mt(getClientIdentifier cid addr \<mapsto> filter (\<lambda>ts. now - ts < RATE_LIMIT_WINDOW) (tracked mt (getClientIdentifier cid addr)) @ [now]))"
proof -
  have eq: "(\<lambda>ts. now - RATE_LIMIT_WINDOW < ts) = (\<lambda>ts. now - ts < RATE_LIMIT_WINDOW)"
    by (rule ext) arith
  have c: "ceil_div1000 RATE_LIMIT_WINDOW = 60"
    by (simp add: ceil_div1000_def RATE_LIMIT_WINDOW_def)
  from assms show ?thesis
    by (simp add: checkLimit_def Let_def eq c)
qed

lemma checkLimit_seq_append:
  "checkLimit_seq mt cid addr (xs @ ys) =
     (let (rs, mt') = checkLimit_seq mt cid addr xs;
          (rs', mt'') = checkLimit_seq mt' cid addr ys
      in (rs @ rs', mt''))"
  by (induction xs arbitrary: mt) (auto simp: Let_def split: prod.splits)

lemma live_in_span:
  assumes "lo \<le> now" "now \<le> hi" "hi - lo < RATE_LIMIT_WINDOW"
    and "\<forall>s\<in>set e. s \<le> lo - RATE_LIMIT_WINDOW \<or> (lo \<le> s \<and> s \<le> hi)"
  shows "filter (\<lambda>ts. now - ts < RATE_LIMIT_WINDOW) e = filter (\<lambda>s. lo \<le> s) e"
  using assms by (intro filter_cong) auto

lemma checkLimit_seq_all_accepted:
  assumes "set nows \<subseteq> {lo..hi}" "hi - lo < RATE_LIMIT_WINDOW"
    and "\<forall>s\<in>set (tracked mt (getClientIdentifier cid addr)). s \<le> lo - RATE_LIMIT_WINDOW \<or> (lo \<le> s \<and> s \<le> hi)"
    and "length (filter (\<lambda>s. lo \<le> s) (tracked mt (getClientIdentifier cid addr))) + length nows \<le> MAX_MESSAGES_PER_MINUTE"
  shows "map allowed (fst (checkLimit_seq mt cid addr nows)) = replicate (length nows) True
       \<and> filter (\<lambda>s. lo \<le> s) (tracked (snd (checkLimit_seq mt cid addr nows)) (getClientIdentifier cid addr))
           = filter (\<lambda>s. lo \<le> s) (tracked mt (getClientIdentifier cid addr)) @ nows
       \<and> (\<forall>s\<in>set (tracked (snd (checkLimit_seq mt cid addr nows)) (getClientIdentifier cid addr)). s \<le> lo - RATE_LIMIT_WINDOW \<or> (lo \<le> s \<and> s \<le> hi))
       \<and> (nows \<noteq> [] \<longrightarrow> tracked (snd (checkLimit_seq mt cid addr nows)) (getClientIdentifier cid addr)
           = filter (\<lambda>s. lo \<le> s) (tracked mt (getClientIdentifier cid addr)) @ nows)"
  using assms
proof (induction nows arbitrary: mt)
  case Nil
  then show ?case by simp
next
  case (Cons now nows)
  let ?id = "getClientIdentifier cid addr"
  let ?live = "filter (\<lambda>ts. now - ts < RATE_LIMIT_WINDOW) (tracked mt ?id)"
  have now: "lo \<le> now" "now \<le> hi" using Cons.prems(1) by auto
  have live: "?live = filter (\<lambda>s. lo \<le> s) (tracked mt ?id)"
    using live_in_span[OF now Cons.prems(2) Cons.prems(3)] .
  have lt: "length ?live < MAX_MESSAGES_PER_MINUTE"
    using Cons.prems(4) live by simp
  define mt1 where "mt1 = mt(?id \<mapsto> ?live @ [now])"
  have step: "checkLimit mt now cid addr = (\<lparr>allowed = True,
       remaining = int MAX_MESSAGES_PER_MINUTE - (int (length ?live) + 1),
       resetIn = Some 60\<rparr>, mt1)"
    unfolding mt1_def using checkLimit_accept[OF lt] .
  have tr1: "tracked mt1 ?id = filter (\<lambda>s. lo \<le> s) (tracked mt ?id) @ [now]"
    unfolding mt1_def live by (simp add: tracked_def)
  have p3: "\<forall>s\<in>set (tracked mt1 ?id). s \<le> lo - RATE_LIMIT_WINDOW \<or> (lo \<le> s \<and> s \<le> hi)"
    using Cons.prems(3) now by (auto simp: tr1)
  have f1: "filter (\<lambda>s. lo \<le> s) (tracked mt1 ?id) = filter (\<lambda>s. lo \<le> s) (tracked mt ?id) @ [now]"
    using now by (simp add: tr1)
  have p4: "length (filter (\<lambda>s. lo \<le> s) (tracked mt1 ?id)) + length nows \<le> MAX_MESSAGES_PER_MINUTE"
    using Cons.prems(4) by (simp add: f1)
  have p1: "set nows \<subseteq> {lo..hi}" using Cons.prems(1) by auto
  note IH = Cons.IH[OF p1 Cons.prems(2) p3 p4]
  show ?case using IH now by (cases "nows = []") (auto simp add: step f1 tr1 split: prod.splits)
qed


lemma checkLimit_seq_eleven:
  assumes len: "length nows = 11" and span: "set nows \<subseteq> {lo..hi}" "hi - lo < RATE_LIMIT_WINDOW"
    and stale: "\<forall>s\<in>set (tracked mt (getClientIdentifier cid addr)). s \<le> lo - RATE_LIMIT_WINDOW"
  shows "map allowed (fst (checkLimit_seq mt cid addr nows)) = replicate 10 True @ [False]"
    and "\<exists>r. resetIn (last (fst (checkLimit_seq mt cid addr nows))) = Some r \<and> 0 < r"
    and "tracked (snd (checkLimit_seq mt cid addr nows)) (getClientIdentifier cid addr) = butlast nows"
proof -
  let ?id = "getClientIdentifier cid addr"
  let ?W = RATE_LIMIT_WINDOW
  define first where "first = butlast nows"
  define t11 where "t11 = last nows"
  have nows: "nows = first @ [t11]" and lf: "length first = 10"
    using len by (auto simp: first_def t11_def intro: append_butlast_last_id[symmetric])
  have sub: "set first \<subseteq> {lo..hi}" and t11: "lo \<le> t11" "t11 \<le> hi"
    using span(1) by (auto simp: nows)
  have nolive: "filter (\<lambda>s. lo \<le> s) (tracked mt ?id) = []"
    using stale span(2) by (auto simp: filter_empty_conv RATE_LIMIT_WINDOW_def)
  have st: "\<forall>s\<in>set (tracked mt ?id). s \<le> lo - ?W \<or> (lo \<le> s \<and> s \<le> hi)"
    using stale by blast
  have cnt: "length (filter (\<lambda>s. lo \<le> s) (tracked mt ?id)) + length first \<le> MAX_MESSAGES_PER_MINUTE"
    by (simp add: nolive lf MAX_MESSAGES_PER_MINUTE_def)
  obtain rs mt1 where seq1: "checkLimit_seq mt cid addr first = (rs, mt1)"
    by (cases "checkLimit_seq mt cid addr first")
  from checkLimit_seq_all_accepted[OF sub span(2) st cnt]
  have rs: "map allowed rs = replicate 10 True"
    and fl: "filter (\<lambda>s. lo \<le> s) (tracked mt1 ?id) = first"
    and st1: "\<forall>s\<in>set (tracked mt1 ?id). s \<le> lo - ?W \<or> (lo \<le> s \<and> s \<le> hi)"
    and tr: "tracked mt1 ?id = first"
    using lf by (auto simp add: seq1 nolive)
  have live: "filter (\<lambda>ts. t11 - ts < ?W) (tracked mt1 ?id) = first"
    using live_in_span[OF t11 span(2) st1] fl by simp
  have full: "MAX_MESSAGES_PER_MINUTE \<le> length (filter (\<lambda>ts. t11 - ts < ?W) (tracked mt1 ?id))"
    by (simp add: live lf MAX_MESSAGES_PER_MINUTE_def)
  have step: "checkLimit mt1 t11 cid addr =
      (\<lparr>allowed = False, remaining = 0,
        resetIn = Some (ceil_div1000 (hd first + ?W - t11))\<rparr>, mt1)"
    using checkLimit_reject[OF full] by (simp add: live)
  have whole: "checkLimit_seq mt cid addr nows =
      (rs @ [\<lparr>allowed = False, remaining = 0,
        resetIn = Some (ceil_div1000 (hd first + ?W - t11))\<rparr>], mt1)"
    by (simp add: nows checkLimit_seq_append seq1 step)
  show "map allowed (fst (checkLimit_seq mt cid addr nows)) = replicate 10 True @ [False]"
    by (simp add: whole rs)
  have "first \<noteq> []" using lf by auto
  then have "hd first \<in> set first" by simp
  then have "lo \<le> hd first" using sub by auto
  then have "0 < hd first + ?W - t11" using t11 span(2) by arith
  then have "0 < ceil_div1000 (hd first + ?W - t11)"
    by (simp add: ceil_div1000_ceiling)
  then show "\<exists>r. resetIn (last (fst (checkLimit_seq mt cid addr nows))) = Some r \<and> 0 < r"
    by (simp add: whole)
  show "tracked (snd (checkLimit_seq mt cid addr nows)) ?id = butlast nows"
    by (simp add: whole tr first_def)
qed

text \<open>
  Claim C2 (rate limit exactness). Eleven calls for one identifier whose clock readings
  all lie in a span \<open>lo..hi\<close> shorter than the window, on a tracking whose stored
  timestamps for the identifier (if any) have all expired: the first ten are allowed,
  the eleventh is rejected with a positive \<open>resetIn\<close>, and a call at least one
  window after every earlier one is allowed again. The last conjunct is the rule of
  every single call: timestamps with \<open>now - t \<ge> W\<close> are dropped before counting;
  with \<open>M\<close> or more left the call is rejected, the tracking is returned as it was
  and \<open>resetIn\<close> is the ceiling of \<open>(oldest + W - now) / 1000\<close>; otherwise \<open>now\<close>
  is appended and \<open>remaining\<close> is \<open>M\<close> minus the length of the appended list.
\<close>

theorem checkLimit_rate_limit_exactness:
  assumes len: "length nows = 11"
    and span: "set nows \<subseteq> {lo..hi}" "hi - lo < RATE_LIMIT_WINDOW"
    and stale: "\<forall>s\<in>set (tracked mt (getClientIdentifier cid addr)). s \<le> lo - RATE_LIMIT_WINDOW"
    and later: "\<forall>t\<in>set nows. RATE_LIMIT_WINDOW \<le> later - t"
  shows "MAX_MESSAGES_PER_MINUTE = 10 \<and> RATE_LIMIT_WINDOW = 60000
    \<and> map allowed (fst (checkLimit_seq mt cid addr nows)) = replicate 10 True @ [False]
    \<and> (\<exists>r. resetIn (last (fst (checkLimit_seq mt cid addr nows))) = Some r \<and> 0 < r)
    \<and> allowed (fst (checkLimit (snd (checkLimit_seq mt cid addr nows)) later cid addr))
    \<and> (\<forall>m now.
          let ident = getClientIdentifier cid addr;
              live = filter (\<lambda>t. \<not> RATE_LIMIT_WINDOW \<le> now - t) (tracked m ident)
          in if MAX_MESSAGES_PER_MINUTE \<le> length live
             then checkLimit m now cid addr =
                    (\<lparr>allowed = False, remaining = 0,
                      resetIn = Some \<lceil>real_of_int (hd live + RATE_LIMIT_WINDOW - now) / 1000\<rceil>\<rparr>, m)
             else checkLimit m now cid addr =
                    (\<lparr>allowed = True,
                      remaining = int MAX_MESSAGES_PER_MINUTE - int (length (live @ [now])),
                      resetIn = Some 60\<rparr>,
                     m(ident \<mapsto> live @ [now])))"
proof -
  let ?id = "getClientIdentifier cid addr"
  let ?mt' = "snd (checkLimit_seq mt cid addr nows)"
  note eleven = checkLimit_seq_eleven[OF len span stale]
  have "set (butlast nows) \<subseteq> set nows"
    by (auto dest: in_set_butlastD)
  then have "filter (\<lambda>ts. later - ts < RATE_LIMIT_WINDOW) (tracked ?mt' ?id) = []"
    using later by (fastforce simp: eleven(3) filter_empty_conv)
  then have "length (filter (\<lambda>ts. later - ts < RATE_LIMIT_WINDOW) (tracked ?mt' ?id))
      < MAX_MESSAGES_PER_MINUTE"
    by (simp add: MAX_MESSAGES_PER_MINUTE_def)
  from checkLimit_accept[OF this]
  have again: "allowed (fst (checkLimit ?mt' later cid addr))" by simp
  have mech: "\<forall>m now.
          let ident = getClientIdentifier cid addr;
              live = filter (\<lambda>t. \<not> RATE_LIMIT_WINDOW \<le> now - t) (tracked m ident)
          in if MAX_MESSAGES_PER_MINUTE \<le> length live
             then checkLimit m now cid addr =
                    (\<lparr>allowed = False, remaining = 0,
                      resetIn = Some \<lceil>real_of_int (hd live + RATE_LIMIT_WINDOW - now) / 1000\<rceil>\<rparr>, m)
             else checkLimit m now cid addr =
                    (\<lparr>allowed = True,
                      remaining = int MAX_MESSAGES_PER_MINUTE - int (length (live @ [now])),
                      resetIn = Some 60\<rparr>,
                     m(ident \<mapsto> live @ [now]))"
  proof (intro allI)
    fix m now
    have eq: "(\<lambda>t. \<not> RATE_LIMIT_WINDOW \<le> now - t) = (\<lambda>ts. now - ts < RATE_LIMIT_WINDOW)"
      by (rule ext) arith
    show "let ident = getClientIdentifier cid addr;
              live = filter (\<lambda>t. \<not> RATE_LIMIT_WINDOW \<le> now - t) (tracked m ident)
          in if MAX_MESSAGES_PER_MINUTE \<le> length live
             then checkLimit m now cid addr =
                    (\<lparr>allowed = False, remaining = 0,
                      resetIn = Some \<lceil>real_of_int (hd live + RATE_LIMIT_WINDOW - now) / 1000\<rceil>\<rparr>, m)
             else checkLimit m now cid addr =
                    (\<lparr>allowed = True,
                      remaining = int MAX_MESSAGES_PER_MINUTE - int (length (live @ [now])),
                      resetIn = Some 60\<rparr>,
                     m(ident \<mapsto> live @ [now]))"
      unfolding Let_def eq
      using checkLimit_reject[where mt=m and now=now and cid=cid and addr=addr]
        checkLimit_accept[where mt=m and now=now and cid=cid and addr=addr]
      by (simp add: ceil_div1000_ceiling)
  qed
  show ?thesis
    using eleven(1,2) again mech
    by (simp add: MAX_MESSAGES_PER_MINUTE_def RATE_LIMIT_WINDOW_def)
qed

theorem checkLimit_rate_limit_exactness_witness:
  "map allowed (fst (checkLimit_seq Map.empty (ustr ''c1'') None ex_nows))
     = [True, True, True, True, True, True, True, True, True, True, False]
   \<and> (\<exists>r. resetIn (last (fst (checkLimit_seq Map.empty (ustr ''c1'') None ex_nows))) = Some r \<and> 0 < r)
   \<and> allowed (fst (checkLimit (snd (checkLimit_seq Map.empty (ustr ''c1'') None ex_nows))
         60010 (ustr ''c1'') None))"
proof -
  have h1: "length ex_nows = 11" by (simp add: ex_nows_def)
  have h2: "set ex_nows \<subseteq> {0..10}" by (simp add: ex_nows_def)
  have h3: "(10::int) - 0 < RATE_LIMIT_WINDOW" by (simp add: RATE_LIMIT_WINDOW_def)
  have h4: "\<forall>s\<in>set (tracked Map.empty (getClientIdentifier (ustr ''c1'') None)).
      s \<le> 0 - RATE_LIMIT_WINDOW"
    by (simp add: tracked_def)
  have h5: "\<forall>t\<in>set ex_nows. RATE_LIMIT_WINDOW \<le> 60010 - t"
    by (simp add: ex_nows_def RATE_LIMIT_WINDOW_def)
  from checkLimit_rate_limit_exactness[OF h1 h2 h3 h4 h5]
  show ?thesis by (simp add: numeral_eq_Suc)
qed

text \<open>
  Claim C9 (a rejection leaves the limiter's state unchanged). When \<open>checkLimit\<close>
  answers \<open>allowed = False\<close>, the tracking map it leaves is the map it was given:
  nothing is appended and the pruned list is not stored. The example has an expired
  timestamp that is still stored after the rejected call.
\<close>

theorem checkLimit_rejection_keeps_tracking:
  "\<not> allowed (fst (checkLimit mt now cid addr)) \<Longrightarrow> snd (checkLimit mt now cid addr) = mt"
  by (simp add: checkLimit_def Let_def split: if_splits)

theorem checkLimit_rejection_keeps_tracking_witness:
  "\<not> allowed (fst (checkLimit ex_tracking 60500 (ustr ''c1'') None))
   \<and> tracked (snd (checkLimit ex_tracking 60500 (ustr ''c1'') None)) (ustr ''client:c1'')
       = [0, 50000, 50001, 50002, 50003, 50004, 50005, 50006, 50007, 50008, 50009]"
proof -
  have h: "\<not> allowed (fst (checkLimit ex_tracking 60500 (ustr ''c1'') None))"
    by (simp add: checkLimit_def getClientIdentifier_def tracked_def ex_tracking_def
        ustr_def config_defs)
  from checkLimit_rejection_keeps_tracking[OF h] h
  show ?thesis by (simp add: ex_tracking_def tracked_def)
qed

section \<open>Properties of the registry and the controller\<close>

subsection \<open>What each operation does to the registry\<close>

lemma clients_sendToClient [simp]: "clients (snd (sendToClient st i p)) = clients st"
  by (simp add: sendToClient_def split: option.splits)

lemma clients_sendError [simp]: "clients (sendError st now i m) = clients st"
  by (simp add: sendError_def)

lemma clients_broadcast [simp]: "clients (snd (broadcast st p e)) = clients st"
  by (simp add: broadcast_def split: prod.splits)

lemma clients_processLoop [simp]: "clients (processLoop q st) = clients st"
  by (induction q st rule: processLoop.induct) (simp_all add: Let_def)

lemma clients_queueMessage [simp]: "clients (queueMessage st m) = clients st"
  by (simp add: queueMessage_def processMessageQueue_def Let_def)

lemma clients_resume [simp]: "clients (resume st) = clients st"
  by (simp add: resume_def)

lemma clients_handlePing [simp]: "clients (handlePing st now i) = clients st"
  by (simp add: handlePing_def)

lemma clients_handleError [simp]: "clients (handleError st now i) = clients st"
  by (simp add: handleError_def split: option.splits)

lemma clients_handleChatMessage [simp]: "clients (handleChatMessage st now i d) = clients st"
  by (simp add: handleChatMessage_def Let_def split: option.splits sum.splits prod.splits)

subsection \<open>Names under updates of the map\<close>

lemma in_names_of:
  "n \<in> set (names_of cs) \<longleftrightarrow> (\<exists>i c. (i, c) \<in> set cs \<and> username c = Some n)"
  by (induction cs rule: names_of.induct) (auto split: option.splits)

lemma names_update_subset:
  "set (names_of (AList.update k c' cs)) \<subseteq> set (names_of cs) \<union> set_option (username c')"
  by (induction cs rule: names_of.induct) (auto split: option.splits)

lemma names_update_distinct:
  assumes "distinct (names_of cs)"
    and "\<And>n. username c' = Some n \<Longrightarrow>
           n \<notin> set (names_of cs) \<or> (\<exists>c. map_of cs k = Some c \<and> username c = Some n)"
  shows "distinct (names_of (AList.update k c' cs))"
  using assms
proof (induction cs rule: names_of.induct)
  case 1
  then show ?case by (simp split: option.splits)
next
  case (2 k0 c0 cs)
  show ?case
  proof (cases "k0 = k")
    case True
    then show ?thesis using "2.prems"
      by (auto split: option.splits)
  next
    case False
    have d: "distinct (names_of cs)"
      using "2.prems"(1) by (auto split: option.splits)
    have h: "\<And>n. username c' = Some n \<Longrightarrow>
           n \<notin> set (names_of cs) \<or> (\<exists>c. map_of cs k = Some c \<and> username c = Some n)"
      using "2.prems"(2) False by (auto split: option.splits)
    have in_names: "\<And>c n. map_of cs k = Some c \<Longrightarrow> username c = Some n \<Longrightarrow>
        n \<in> set (names_of cs)"
      unfolding in_names_of by (blast dest: map_of_SomeD)
    show ?thesis
    proof (cases "username c0")
      case None
      then show ?thesis using "2.IH"(1)[OF None d h] False by simp
    next
      case (Some n0)
      have IH: "distinct (names_of (AList.update k c' cs))"
        using "2.IH"(2)[OF Some d h] .
      have n0: "n0 \<notin> set (names_of cs)"
        using "2.prems"(1) Some by simp
      have "n0 \<notin> set_option (username c')"
      proof
        assume "n0 \<in> set_option (username c')"
        then have u: "username c' = Some n0" by (cases "username c'") auto
        from "2.prems"(2)[OF u] n0 False in_names show False
          by (auto simp: Some)
      qed
      with n0 names_update_subset[of k c' cs]
      have "n0 \<notin> set (names_of (AList.update k c' cs))"
        by blast
      then show ?thesis using IH False Some by simp
    qed
  qed
qed

lemma names_delete_distinct:
  "distinct (names_of cs) \<Longrightarrow> distinct (names_of (AList.delete k cs))"
proof (induction cs rule: names_of.induct)
  case 1
  then show ?case by simp
next
  case (2 k0 c0 cs)
  have sub: "set (names_of (AList.delete k cs)) \<subseteq> set (names_of cs)"
    by (induction cs rule: names_of.induct) (auto split: option.splits)
  from 2 sub show ?case
    by (auto split: option.splits)
qed

lemma isUsernameTaken_names: "isUsernameTaken st n \<longleftrightarrow> n \<in> set (names st)"
  by (auto simp: isUsernameTaken_def names_def list_ex_iff in_names_of)

subsection \<open>Every operation keeps the names distinct\<close>

lemma names_unique_iff: "names_unique st \<longleftrightarrow> distinct (names_of (clients st))"
  by (simp add: names_unique_def names_def)

lemma names_update_none:
  "distinct (names_of cs) \<Longrightarrow> username c' = None \<Longrightarrow>
   distinct (names_of (AList.update k c' cs))"
  by (rule names_update_distinct) simp_all

lemma names_update_fresh:
  "distinct (names_of cs) \<Longrightarrow> username c' = Some n \<Longrightarrow> n \<notin> set (names_of cs) \<Longrightarrow>
   distinct (names_of (AList.update k c' cs))"
  by (rule names_update_distinct) simp_all

lemma names_update_same:
  "distinct (names_of cs) \<Longrightarrow> map_of cs k = Some c \<Longrightarrow> username c' = username c \<Longrightarrow>
   distinct (names_of (AList.update k c' cs))"
  by (rule names_update_distinct) simp_all

lemma names_unique_addClient:
  "names_unique st \<Longrightarrow> names_unique (snd (addClient st now i sock addr))"
  by (simp add: names_unique_def names_def addClient_def names_update_none)

lemma names_unique_removeClient:
  "names_unique st \<Longrightarrow> names_unique (snd (removeClient st i))"
  by (simp add: names_unique_def names_def removeClient_def names_delete_distinct
      split: option.splits)

lemma names_unique_setUsername:
  "names_unique st \<Longrightarrow> \<not> isUsernameTaken st n \<Longrightarrow>
   names_unique (snd (setUsername st now i n))"
  by (simp add: isUsernameTaken_names names_unique_def names_def setUsername_def
      names_update_fresh split: option.splits)

lemma names_unique_updateActivity:
  "names_unique st \<Longrightarrow> names_unique (updateActivity st now i)"
  by (auto simp add: names_unique_def names_def updateActivity_def getClient_def
      intro: names_update_same split: option.splits)

lemma names_unique_setSocket:
  "names_unique st \<Longrightarrow> names_unique (setSocket st i sock)"
  by (auto simp add: names_unique_def names_def setSocket_def getClient_def
      intro: names_update_same split: option.splits)

lemma names_unique_handleJoin:
  assumes u: "names_unique st"
  shows "names_unique (handleJoin st now i d)"
proof (cases "getClient st i")
  case None
  then show ?thesis using u by (simp add: handleJoin_def)
next
  case (Some c)
  show ?thesis
  proof (cases "validateUsername (data_username d)")
    case (Inl e)
    then show ?thesis using u Some
      by (simp add: handleJoin_def names_unique_iff)
  next
    case (Inr valid)
    show ?thesis
    proof (cases "isUsernameTaken st (sanitize valid)")
      case True
      then show ?thesis using u Some Inr
        by (simp add: handleJoin_def names_unique_iff)
    next
      case False
      have "names_unique (snd (setUsername st now i (sanitize valid)))"
        using u False by (rule names_unique_setUsername)
      then show ?thesis using Some Inr False
        by (simp add: handleJoin_def Let_def names_unique_iff)
    qed
  qed
qed

lemma names_unique_handleDisconnect:
  "names_unique st \<Longrightarrow> names_unique (handleDisconnect st now i)"
  unfolding handleDisconnect_def Let_def
  by (rule names_unique_removeClient)
     (simp add: names_unique_iff split: option.splits)

lemma names_unique_foldl_remove:
  "names_unique st \<Longrightarrow> names_unique (foldl (\<lambda>s i. snd (removeClient s i)) st ids)"
  by (induction ids arbitrary: st) (simp_all add: names_unique_removeClient)

lemma names_unique_cleanup:
  "names_unique st \<Longrightarrow> names_unique (snd (cleanupDeadConnections st now))"
  by (simp add: cleanupDeadConnections_def Let_def names_unique_foldl_remove)

lemma names_unique_handleMessage:
  assumes u: "names_unique st"
  shows "names_unique (handleMessage st now i r)"
proof (cases r)
  case Unparseable
  then show ?thesis using u by (simp add: handleMessage_def names_unique_iff)
next
  case NonObject
  then show ?thesis using u
    by (simp add: handleMessage_def validateMessage_def names_unique_iff)
next
  case (Object d)
  note u1 = names_unique_updateActivity[OF u, of now i]
  show ?thesis
  proof (cases "validateMessage r")
    case (Inl e)
    then show ?thesis using u Object
      by (simp add: handleMessage_def names_unique_iff)
  next
    case (Inr d')
    have "names_unique (handleJoin (updateActivity st now i) now i d')"
      using u1 by (rule names_unique_handleJoin)
    moreover have "names_unique (handleChatMessage (updateActivity st now i) now i d')"
      "names_unique (handlePing (updateActivity st now i) now i)"
      "names_unique (sendError (updateActivity st now i) now i MsgUnsupportedType)"
      "names_unique (sendError (updateActivity st now i) now i MsgServerError)"
      using u1 by (simp_all add: names_unique_iff)
    ultimately show ?thesis using Object Inr
      by (simp add: handleMessage_def Let_def)
  qed
qed

lemma names_unique_handleError:
  "names_unique st \<Longrightarrow> names_unique (handleError st now i)"
  by (simp add: names_unique_iff)

lemma names_unique_step: "names_unique st \<Longrightarrow> names_unique (step st ev)"
proof (cases ev)
  case (Pair now e)
  assume u: "names_unique st"
  show ?thesis
  proof (cases e)
    case (Connection i sock addr)
    with names_unique_addClient[OF u, of now i sock addr] show ?thesis
      by (simp add: Pair addClient_def names_unique_iff)
  next
    case SleepDone
    then show ?thesis using u by (simp add: Pair names_unique_iff)
  qed (simp_all add: Pair u names_unique_handleMessage names_unique_handleDisconnect
        names_unique_cleanup names_unique_setSocket names_unique_handleError)
qed

lemma names_unique_run: "names_unique st \<Longrightarrow> names_unique (run st evs)"
  unfolding run_def by (induction evs arbitrary: st) (simp_all add: names_unique_step)

lemma names_unique_initial: "names_unique initial"
  by (simp add: names_unique_def names_def initial_def)

lemmas eval_defs =
  run_def handleMessage_def validateMessage_def updateActivity_def
  handleJoin_def addClient_def sendToClient_def sendError_def getClient_def ustr_def
  initial_def validateUsername_def trim_def isWhiteSpace_def validPattern_test_def
  validPatternChar_def config_defs sanitize_def replaceAll_def isUsernameTaken_def
  setUsername_def broadcast_def getActiveUsers_def excluded_def Let_def
  names_def names_unique_def

lemmas ex_defs =
  ex_state_def ex_events_def ex_join_def ex_say_def ex_c1_def ex_c2_def ex_open_def

lemma names_unique_pairwise:
  "distinct (names_of cs) \<Longrightarrow> (i, c) \<in> set cs \<Longrightarrow> (j, c') \<in> set cs \<Longrightarrow> i \<noteq> j \<Longrightarrow>
   username c = Some n \<Longrightarrow> username c' \<noteq> Some n"
proof (induction cs rule: names_of.induct)
  case 1
  then show ?case by simp
next
  case (2 k0 c0 cs)
  then show ?case
    by (auto simp: in_names_of split: option.splits)
qed

text \<open>
  Claim C1 (name uniqueness). In every state reached from the initial one by the
  transport's events, the non-null names of the registered connections are pairwise
  distinct (compared as strings, code unit by code unit): two connections with
  different ids never hold the same name. Each operation that sets, removes or changes
  a name keeps the invariant: \<open>addClient\<close>, \<open>handleJoin\<close> (which calls
  \<open>setUsername\<close> only after \<open>isUsernameTaken\<close> has answered no), \<open>setUsername\<close>
  under that same guard, \<open>removeClient\<close>, \<open>cleanupDeadConnections\<close>, and every
  event of the transport.
\<close>

theorem name_uniqueness_invariant:
  "names_unique (run initial evs)
   \<and> (\<forall>i j c c' n. getClient (run initial evs) i = Some c \<and> getClient (run initial evs) j = Some c'
         \<and> i \<noteq> j \<and> username c = Some n \<longrightarrow> username c' \<noteq> Some n)
   \<and> (names_unique st \<longrightarrow>
         names_unique (snd (addClient st now k sock addr))
       \<and> names_unique (handleJoin st now k d)
       \<and> (\<not> isUsernameTaken st name \<longrightarrow> names_unique (snd (setUsername st now k name)))
       \<and> names_unique (snd (removeClient st k))
       \<and> names_unique (snd (cleanupDeadConnections st now))
       \<and> names_unique (step st ev))"
proof -
  have r: "names_unique (run initial evs)"
    using names_unique_initial by (rule names_unique_run)
  have p: "\<forall>i j c c' n. getClient (run initial evs) i = Some c \<and> getClient (run initial evs) j = Some c'
         \<and> i \<noteq> j \<and> username c = Some n \<longrightarrow> username c' \<noteq> Some n"
  proof (intro allI impI, elim conjE)
    fix i j c c' n
    assume a: "getClient (run initial evs) i = Some c" "getClient (run initial evs) j = Some c'"
      "i \<noteq> j" "username c = Some n"
    have d: "distinct (names_of (clients (run initial evs)))"
      using r by (simp add: names_unique_iff)
    from a(1,2) have "(i, c) \<in> set (clients (run initial evs))"
      "(j, c') \<in> set (clients (run initial evs))"
      by (auto simp: getClient_def dest: map_of_SomeD)
    from names_unique_pairwise[OF d this a(3,4)] show "username c' \<noteq> Some n" .
  qed
  show ?thesis
    using r p
    by (simp add: names_unique_addClient names_unique_handleJoin names_unique_setUsername
        names_unique_removeClient names_unique_cleanup names_unique_step)
qed

theorem name_uniqueness_invariant_witness:
  "names_unique ex_state
   \<and> names_unique (handleJoin ex_state 3 ex_c2 (Data (JStr (ustr ''join'')) (JStr (ustr ''Ana'')) JUndefined))
   \<and> names (handleJoin ex_state 3 ex_c2 (Data (JStr (ustr ''join'')) (JStr (ustr ''Ana'')) JUndefined))
       = [ustr ''Ana'']
   \<and> names (handleJoin ex_state 3 ex_c2 (Data (JStr (ustr ''join'')) (JStr (ustr ''Eva'')) JUndefined))
       = [ustr ''Ana'', ustr ''Eva'']"
proof -
  have n: "names ex_state = [ustr ''Ana'']"
    by (simp add: eval_defs ex_defs)
  have a: "names (handleJoin ex_state 3 ex_c2 (Data (JStr (ustr ''join'')) (JStr (ustr ''Ana'')) JUndefined))
       = [ustr ''Ana'']"
    by (simp add: eval_defs ex_defs)
  have b: "names (handleJoin ex_state 3 ex_c2 (Data (JStr (ustr ''join'')) (JStr (ustr ''Eva'')) JUndefined))
       = [ustr ''Ana'', ustr ''Eva'']"
    by (simp add: eval_defs ex_defs)
  from name_uniqueness_invariant[of ex_events ex_state 3 ex_c2 ex_open "[]"
      "Data (JStr (ustr ''join'')) (JStr (ustr ''Ana'')) JUndefined" "[]" "(3, SleepDone)"]
  show ?thesis using a b by (simp add: ex_state_def)
qed

subsection \<open>sanitize and the validated names\<close>

lemma replaceAll_absent: "c \<notin> set s \<Longrightarrow> replaceAll c r s = s"
  unfolding replaceAll_def by (induction s) auto

lemma validPatternChar_not_escaped:
  "validPatternChar c \<Longrightarrow>
   c \<noteq> 0x26 \<and> c \<noteq> 0x3C \<and> c \<noteq> 0x3E \<and> c \<noteq> 0x22 \<and> c \<noteq> 0x27 \<and> c \<noteq> 0x2F"
  unfolding validPatternChar_def isWhiteSpace_def by presburger

lemma sanitize_validPattern:
  assumes "list_all validPatternChar s"
  shows "sanitize s = s"
proof -
  have "\<And>c. c \<in> {0x26, 0x3C, 0x3E, 0x22, 0x27, 0x2F} \<Longrightarrow> c \<notin> set s"
    using assms validPatternChar_not_escaped by (fastforce simp: list_all_iff)
  then show ?thesis
    by (simp add: sanitize_def replaceAll_absent)
qed

lemma trim_Nil [simp]: "trim [] = []"
  by (simp add: trim_def)

lemma validateUsername_Inr:
  "validateUsername u = Inr v \<longleftrightarrow>
     (\<exists>s. u = JStr s \<and> v = trim s \<and> MIN_USERNAME_LENGTH \<le> length (trim s)
        \<and> length (trim s) \<le> MAX_USERNAME_LENGTH \<and> list_all validPatternChar (trim s))"
  by (cases u)
     (auto simp: validateUsername_def validPattern_test_def Let_def
       MIN_USERNAME_LENGTH_def split: if_splits)

lemma sanitize_valid: "validateUsername u = Inr v \<Longrightarrow> sanitize v = v"
  by (auto simp: validateUsername_Inr sanitize_validPattern)

subsection \<open>Lookups after the handlers\<close>

lemma getClient_update:
  "getClient (st\<lparr>clients := AList.update k c (clients st)\<rparr>) j = (if j = k then Some c else getClient st j)"
  by (simp add: getClient_def update_conv')

lemma getClient_clients_eq: "clients st' = clients st \<Longrightarrow> getClient st' = getClient st"
  by (rule ext) (simp add: getClient_def)

lemma names_of_update_same:
  "map_of cs k = Some c \<Longrightarrow> username c' = username c \<Longrightarrow>
   names_of (AList.update k c' cs) = names_of cs"
  by (induction cs rule: names_of.induct) (auto split: option.splits)

lemma names_updateActivity: "names (updateActivity st now i) = names st"
  by (simp add: names_def updateActivity_def getClient_def names_of_update_same
      split: option.splits)

lemma isUsernameTaken_updateActivity:
  "isUsernameTaken (updateActivity st now i) n = isUsernameTaken st n"
  by (simp add: isUsernameTaken_names names_updateActivity)

lemma username_updateActivity:
  "map_option username (getClient (updateActivity st now i) j) = map_option username (getClient st j)"
  by (auto simp: updateActivity_def getClient_update split: option.splits)

lemma getClient_updateActivity_None:
  "getClient (updateActivity st now i) j = None \<longleftrightarrow> getClient st j = None"
  using username_updateActivity[of st now i j] by (metis map_option_is_None)

lemma handleJoin_unknown: "getClient st i = None \<Longrightarrow> handleJoin st now i d = st"
  by (simp add: handleJoin_def)

lemma handleJoin_invalid:
  "getClient st i = Some c \<Longrightarrow> validateUsername (data_username d) = Inl e \<Longrightarrow>
   handleJoin st now i d = sendError st now i (MsgUsername e)"
  by (simp add: handleJoin_def)

lemma handleJoin_taken:
  "getClient st i = Some c \<Longrightarrow> validateUsername (data_username d) = Inr v \<Longrightarrow>
   isUsernameTaken st v \<Longrightarrow>
   handleJoin st now i d = sendError st now i MsgUsernameTaken"
  by (simp add: handleJoin_def sanitize_valid)

lemma handleJoin_ok:
  assumes "getClient st i = Some c" "validateUsername (data_username d) = Inr v"
    "\<not> isUsernameTaken st v"
  shows "handleJoin st now i d =
     (let st1 = st\<lparr>clients := AList.update i (c\<lparr>username := Some v, lastActivity := now\<rparr>)
                   (clients st)\<rparr>;
          st2 = snd (sendToClient st1 i (JoinedP v (getActiveUsers st1)))
      in snd (broadcast st2 (UserJoinedP v now (getActiveUsers st1)) (Some i)))"
  using assms
  by (simp add: handleJoin_def sanitize_valid setUsername_def Let_def getActiveUsers_def)

lemma clients_handleJoin_ok:
  assumes "getClient st i = Some c" "validateUsername (data_username d) = Inr v"
    "\<not> isUsernameTaken st v"
  shows "clients (handleJoin st now i d) =
     AList.update i (c\<lparr>username := Some v, lastActivity := now\<rparr>) (clients st)"
  by (simp add: handleJoin_ok[OF assms] Let_def)

lemma isUsernameTaken_iff:
  "isUsernameTaken st n \<longleftrightarrow> (\<exists>j c. (j, c) \<in> set (clients st) \<and> username c = Some n)"
  by (simp add: isUsernameTaken_names names_def in_names_of)

text \<open>
  Claim C5, as the code has it. \<open>setUsername\<close> fails (answers \<open>False\<close>, state
  unchanged) exactly when the id is unknown; it never looks at the name. The check for
  a taken name is \<open>handleJoin\<close>'s: for a registered connection and a name that passed
  validation, the join is answered with USERNAME_TAKEN exactly when some registered
  connection, the joining connection included, holds that name; otherwise the name is
  stored. So a connection that joins again under the name it already holds is
  rejected as taken.
\<close>

theorem join_name_taken_semantics:
  "(getClient st i = None \<longrightarrow> setUsername st now i name = (False, st) \<and> handleJoin st now i d = st)
   \<and> (getClient st i \<noteq> None \<longrightarrow> fst (setUsername st now i name))
   \<and> (getClient st i = Some c \<and> validateUsername (data_username d) = Inr v \<longrightarrow>
        (if \<exists>j c'. (j, c') \<in> set (clients st) \<and> username c' = Some v
         then handleJoin st now i d = sendError st now i MsgUsernameTaken
         else getClient (handleJoin st now i d) i
                = Some (c\<lparr>username := Some v, lastActivity := now\<rparr>)
              \<and> handleJoin st now i d \<noteq> sendError st now i MsgUsernameTaken))
   \<and> (getClient st i = Some c \<and> validateUsername (data_username d) = Inr v \<and> username c = Some v \<longrightarrow>
        handleJoin st now i d = sendError st now i MsgUsernameTaken)"
proof -
  have a: "getClient st i = None \<longrightarrow> setUsername st now i name = (False, st) \<and> handleJoin st now i d = st"
    by (simp add: setUsername_def handleJoin_unknown)
  have b: "getClient st i \<noteq> None \<longrightarrow> fst (setUsername st now i name)"
    by (auto simp: setUsername_def)
  have c: "getClient st i = Some c \<and> validateUsername (data_username d) = Inr v \<longrightarrow>
        (if \<exists>j c'. (j, c') \<in> set (clients st) \<and> username c' = Some v
         then handleJoin st now i d = sendError st now i MsgUsernameTaken
         else getClient (handleJoin st now i d) i
                = Some (c\<lparr>username := Some v, lastActivity := now\<rparr>)
              \<and> handleJoin st now i d \<noteq> sendError st now i MsgUsernameTaken)"
  proof (intro impI, elim conjE)
    assume g: "getClient st i = Some c" and v: "validateUsername (data_username d) = Inr v"
    show "if \<exists>j c'. (j, c') \<in> set (clients st) \<and> username c' = Some v
         then handleJoin st now i d = sendError st now i MsgUsernameTaken
         else getClient (handleJoin st now i d) i
                = Some (c\<lparr>username := Some v, lastActivity := now\<rparr>)
              \<and> handleJoin st now i d \<noteq> sendError st now i MsgUsernameTaken"
    proof (cases "isUsernameTaken st v")
      case True
      then show ?thesis using handleJoin_taken[OF g v True]
        by (simp add: isUsernameTaken_iff)
    next
      case False
      have look: "getClient (handleJoin st now i d) i
          = Some (c\<lparr>username := Some v, lastActivity := now\<rparr>)"
        by (simp add: getClient_def clients_handleJoin_ok[OF g v False] update_conv')
      have "(i, c) \<in> set (clients st)"
        using g by (auto simp: getClient_def dest: map_of_SomeD)
      then have nu: "username c \<noteq> Some v"
        using False by (auto simp: isUsernameTaken_iff)
      have "handleJoin st now i d \<noteq> sendError st now i MsgUsernameTaken"
      proof
        assume "handleJoin st now i d = sendError st now i MsgUsernameTaken"
        with look have "getClient (sendError st now i MsgUsernameTaken) i
            = Some (c\<lparr>username := Some v, lastActivity := now\<rparr>)"
          by simp
        then have "c = c\<lparr>username := Some v, lastActivity := now\<rparr>"
          using g by (simp add: getClient_def)
        then have "username c = username (c\<lparr>username := Some v, lastActivity := now\<rparr>)"
          by simp
        with nu show False by simp
      qed
      with look False show ?thesis by (simp add: isUsernameTaken_iff)
    qed
  qed
  have d: "getClient st i = Some c \<and> validateUsername (data_username d) = Inr v \<and> username c = Some v \<longrightarrow>
        handleJoin st now i d = sendError st now i MsgUsernameTaken"
  proof (intro impI, elim conjE)
    assume g: "getClient st i = Some c" and v: "validateUsername (data_username d) = Inr v"
      and u: "username c = Some v"
    have "(i, c) \<in> set (clients st)"
      using g by (auto simp: getClient_def dest: map_of_SomeD)
    then have "isUsernameTaken st v" using u by (auto simp: isUsernameTaken_iff)
    from handleJoin_taken[OF g v this]
    show "handleJoin st now i d = sendError st now i MsgUsernameTaken" .
  qed
  from a b c d show ?thesis by blast
qed

theorem join_name_taken_semantics_witness:
  "handleJoin ex_state 3 ex_c1 (Data (JStr (ustr ''join'')) (JStr (ustr ''Ana'')) JUndefined)
     = sendError ex_state 3 ex_c1 MsgUsernameTaken
   \<and> getClient
        (handleJoin ex_state 3 ex_c2 (Data (JStr (ustr ''join'')) (JStr (ustr ''Eva'')) JUndefined))
        ex_c2
      = Some \<lparr>ws = ex_open, username = Some (ustr ''Eva''), ip = ustr ''10.0.0.2'',
               connectedAt = 1, lastActivity = 3\<rparr>"
proof -
  have g1: "getClient ex_state ex_c1 =
      Some \<lparr>ws = ex_open, username = Some (ustr ''Ana''), ip = ustr ''10.0.0.1'',
             connectedAt = 0, lastActivity = 2\<rparr>"
    by (simp add: eval_defs ex_defs)
  have g2: "getClient ex_state ex_c2 =
      Some \<lparr>ws = ex_open, username = None, ip = ustr ''10.0.0.2'',
             connectedAt = 1, lastActivity = 1\<rparr>"
    by (simp add: eval_defs ex_defs)
  have cs: "map (\<lambda>(j, c). username c) (clients ex_state) = [Some (ustr ''Ana''), None]"
    by (simp add: eval_defs ex_defs)
  have v1: "validateUsername (data_username (Data (JStr (ustr ''join'')) (JStr (ustr ''Ana'')) JUndefined))
      = Inr (ustr ''Ana'')"
    by (simp add: eval_defs)
  have v2: "validateUsername (data_username (Data (JStr (ustr ''join'')) (JStr (ustr ''Eva'')) JUndefined))
      = Inr (ustr ''Eva'')"
    by (simp add: eval_defs)
  have free: "\<not> (\<exists>j c'. (j, c') \<in> set (clients ex_state) \<and> username c' = Some (ustr ''Eva''))"
  proof
    assume "\<exists>j c'. (j, c') \<in> set (clients ex_state) \<and> username c' = Some (ustr ''Eva'')"
    then have "Some (ustr ''Eva'') \<in> set (map (\<lambda>(j, c). username c) (clients ex_state))"
      by force
    then show False unfolding cs by (simp add: ustr_def)
  qed
  from join_name_taken_semantics[where st=ex_state and i=ex_c1 and now=3 and name="[]"
      and d="Data (JStr (ustr ''join'')) (JStr (ustr ''Ana'')) JUndefined" and v="ustr ''Ana''"
      and c="\<lparr>ws = ex_open, username = Some (ustr ''Ana''), ip = ustr ''10.0.0.1'',
             connectedAt = 0, lastActivity = 2\<rparr>"] g1 v1
  have w1: "handleJoin ex_state 3 ex_c1 (Data (JStr (ustr ''join'')) (JStr (ustr ''Ana'')) JUndefined)
     = sendError ex_state 3 ex_c1 MsgUsernameTaken"
    by simp
  from join_name_taken_semantics[where st=ex_state and i=ex_c2 and now=3 and name="[]"
      and d="Data (JStr (ustr ''join'')) (JStr (ustr ''Eva'')) JUndefined" and v="ustr ''Eva''"
      and c="\<lparr>ws = ex_open, username = None, ip = ustr ''10.0.0.2'',
             connectedAt = 1, lastActivity = 1\<rparr>"] g2 v2 free
  have w2: "getClient
        (handleJoin ex_state 3 ex_c2 (Data (JStr (ustr ''join'')) (JStr (ustr ''Eva'')) JUndefined))
        ex_c2
      = Some \<lparr>ws = ex_open, username = Some (ustr ''Eva''), ip = ustr ''10.0.0.2'',
               connectedAt = 1, lastActivity = 3\<rparr>"
    by simp
  from w1 w2 show ?thesis by simp
qed

text \<open>
  Claim C5 as stated fails: the first connection holds the name Ana, no other
  connection holds it, and its own join under Ana is answered with USERNAME_TAKEN
  (the registry is left as it was).
\<close>

theorem join_own_name_rejected_counterexample:
  "map fst (clients ex_state) = [ex_c1, ex_c2]
   \<and> map_option username (getClient ex_state ex_c1) = Some (Some (ustr ''Ana''))
   \<and> map_option username (getClient ex_state ex_c2) = Some None
   \<and> sent (handleJoin ex_state 3 ex_c1 (Data (JStr (ustr ''join'')) (JStr (ustr ''Ana'')) JUndefined))
     = sent ex_state @ [(ex_c1, ErrorP MsgUsernameTaken 3)]
   \<and> clients (handleJoin ex_state 3 ex_c1 (Data (JStr (ustr ''join'')) (JStr (ustr ''Ana'')) JUndefined))
     = clients ex_state"
  by (simp add: eval_defs ex_defs)

lemma username_handleJoin_ok:
  assumes "getClient st i = Some c" "validateUsername (data_username d) = Inr v"
    "\<not> isUsernameTaken st v"
  shows "map_option username (getClient (handleJoin st now i d) j)
     = (if j = i then Some (Some v) else map_option username (getClient st j))"
  by (simp add: getClient_def clients_handleJoin_ok[OF assms] update_conv')

lemma username_handleJoin_rejected:
  assumes "\<not> (\<exists>v. validateUsername (data_username d) = Inr v \<and> \<not> isUsernameTaken st v)"
  shows "clients (handleJoin st now i d) = clients st"
proof (cases "getClient st i")
  case None
  then show ?thesis by (simp add: handleJoin_unknown)
next
  case (Some c)
  show ?thesis
  proof (cases "validateUsername (data_username d)")
    case (Inl e)
    then show ?thesis by (simp add: handleJoin_invalid[OF Some])
  next
    case (Inr v)
    with assms have "isUsernameTaken st v" by simp
    then show ?thesis by (simp add: handleJoin_taken[OF Some Inr])
  qed
qed

lemma handleMessage_cases:
  "handleMessage st now i r =
     (case r of
        Unparseable \<Rightarrow> sendError st now i MsgBadJson
      | NonObject \<Rightarrow> sendError st now i (MsgValidation FormatInvalid)
      | Object d \<Rightarrow>
          if \<not> truthy (data_type d) then sendError st now i (MsgValidation TypeNotSpecified)
          else if data_type d = JStr (ustr ''join'') then handleJoin (updateActivity st now i) now i d
          else if data_type d = JStr (ustr ''message'')
            then handleChatMessage (updateActivity st now i) now i d
          else if data_type d = JStr (ustr ''ping'') then handlePing (updateActivity st now i) now i
          else if data_type d = JUnprintable
            then sendError (updateActivity st now i) now i MsgServerError
          else sendError (updateActivity st now i) now i MsgUnsupportedType)"
  by (simp add: handleMessage_def validateMessage_def Let_def split: raw.splits)

text \<open>
  Claim C6, as the code has it. A connection is registered with a null name. A frame
  changes a stored name in one case only: a join frame whose name passes validation
  and is held by no registered connection sets the name of the connection that sent
  it, whether or not that connection already had a name. Every other frame, and a
  ping, a chat message or a socket error, leaves every stored name as it was.
\<close>

theorem connection_name_changes:
  "map_option username (getClient (snd (addClient st now i sock addr)) i) = Some None
   \<and> (getClient st i = Some c \<and> r = Object d \<and> data_type d = JStr (ustr ''join'')
        \<and> validateUsername (data_username d) = Inr v \<and> \<not> isUsernameTaken st v \<longrightarrow>
        map_option username (getClient (handleMessage st now i r) j)
          = (if j = i then Some (Some v) else map_option username (getClient st j)))
   \<and> (\<not> (\<exists>d v. r = Object d \<and> data_type d = JStr (ustr ''join'')
            \<and> validateUsername (data_username d) = Inr v \<and> \<not> isUsernameTaken st v) \<longrightarrow>
        map_option username (getClient (handleMessage st now i r) j)
          = map_option username (getClient st j))
   \<and> map_option username (getClient (handleChatMessage st now i d) j)
        = map_option username (getClient st j)
   \<and> map_option username (getClient (handlePing st now i) j)
        = map_option username (getClient st j)
   \<and> map_option username (getClient (handleError st now i) j)
        = map_option username (getClient st j)"
proof -
  let ?st1 = "updateActivity st now i"
  have a: "map_option username (getClient (snd (addClient st now i sock addr)) i) = Some None"
    by (simp add: addClient_def getClient_def update_conv')
  have b: "getClient st i = Some c \<and> r = Object d \<and> data_type d = JStr (ustr ''join'')
        \<and> validateUsername (data_username d) = Inr v \<and> \<not> isUsernameTaken st v \<longrightarrow>
        map_option username (getClient (handleMessage st now i r) j)
          = (if j = i then Some (Some v) else map_option username (getClient st j))"
  proof (intro impI, elim conjE)
    assume g: "getClient st i = Some c" and r: "r = Object d"
      and t: "data_type d = JStr (ustr ''join'')"
      and v: "validateUsername (data_username d) = Inr v" and f: "\<not> isUsernameTaken st v"
    obtain c1 where g1: "getClient ?st1 i = Some c1"
      using g getClient_updateActivity_None[of st now i i] by (cases "getClient ?st1 i") auto
    have f1: "\<not> isUsernameTaken ?st1 v"
      using f by (simp add: isUsernameTaken_updateActivity)
    have "handleMessage st now i r = handleJoin ?st1 now i d"
      by (simp add: handleMessage_cases r t ustr_def)
    then show "map_option username (getClient (handleMessage st now i r) j)
          = (if j = i then Some (Some v) else map_option username (getClient st j))"
      by (simp add: username_handleJoin_ok[OF g1 v f1] username_updateActivity)
  qed
  have c: "\<not> (\<exists>d v. r = Object d \<and> data_type d = JStr (ustr ''join'')
            \<and> validateUsername (data_username d) = Inr v \<and> \<not> isUsernameTaken st v) \<longrightarrow>
        map_option username (getClient (handleMessage st now i r) j)
          = map_option username (getClient st j)"
  proof
    assume n: "\<not> (\<exists>d v. r = Object d \<and> data_type d = JStr (ustr ''join'')
            \<and> validateUsername (data_username d) = Inr v \<and> \<not> isUsernameTaken st v)"
    have "clients (handleMessage st now i r) = clients st
        \<or> clients (handleMessage st now i r) = clients ?st1"
    proof (cases r)
      case (Object d')
      show ?thesis
      proof (cases "data_type d' = JStr (ustr ''join'')")
        case True
        with n Object have "\<not> (\<exists>v. validateUsername (data_username d') = Inr v
            \<and> \<not> isUsernameTaken ?st1 v)"
          by (simp add: isUsernameTaken_updateActivity)
        from username_handleJoin_rejected[OF this]
        show ?thesis using True Object by (simp add: handleMessage_cases ustr_def)
      next
        case False
        then show ?thesis using Object by (simp add: handleMessage_cases)
      qed
    qed (simp_all add: handleMessage_cases)
    then have "getClient (handleMessage st now i r) = getClient st
        \<or> getClient (handleMessage st now i r) = getClient ?st1"
      by (auto dest: getClient_clients_eq)
    then show "map_option username (getClient (handleMessage st now i r) j)
          = map_option username (getClient st j)"
      by (auto simp: username_updateActivity)
  qed
  have d: "map_option username (getClient (handleChatMessage st now i d) j)
        = map_option username (getClient st j)"
    "map_option username (getClient (handlePing st now i) j)
        = map_option username (getClient st j)"
    "map_option username (getClient (handleError st now i) j)
        = map_option username (getClient st j)"
    by (simp_all add: getClient_def)
  from a b c d show ?thesis by blast
qed

theorem connection_name_changes_witness:
  "map_option username (getClient
      (handleMessage ex_state 3 ex_c1 (ex_join ''Bob'')) ex_c1) = Some (Some (ustr ''Bob''))
   \<and> map_option username (getClient
      (handleMessage ex_state 3 ex_c1 (ex_say ''hola'')) ex_c1) = Some (Some (ustr ''Ana''))"
proof -
  have g1: "getClient ex_state ex_c1 =
      Some \<lparr>ws = ex_open, username = Some (ustr ''Ana''), ip = ustr ''10.0.0.1'',
             connectedAt = 0, lastActivity = 2\<rparr>"
    by (simp add: eval_defs ex_defs)
  have v: "validateUsername (data_username (Data (JStr (ustr ''join'')) (JStr (ustr ''Bob'')) JUndefined))
      = Inr (ustr ''Bob'')"
    by (simp add: eval_defs)
  have f: "\<not> isUsernameTaken ex_state (ustr ''Bob'')"
    by (simp add: eval_defs ex_defs)
  from connection_name_changes[where st=ex_state and i=ex_c1 and j=ex_c1 and now=3
      and r="ex_join ''Bob''" and d="Data (JStr (ustr ''join'')) (JStr (ustr ''Bob'')) JUndefined"
      and v="ustr ''Bob''"
      and c="\<lparr>ws = ex_open, username = Some (ustr ''Ana''), ip = ustr ''10.0.0.1'',
             connectedAt = 0, lastActivity = 2\<rparr>"] g1 v f
  have w1: "map_option username (getClient
      (handleMessage ex_state 3 ex_c1 (ex_join ''Bob'')) ex_c1) = Some (Some (ustr ''Bob''))"
    by (simp add: ex_join_def)
  have n: "\<not> (\<exists>d v. ex_say ''hola'' = Object d \<and> data_type d = JStr (ustr ''join'')
            \<and> validateUsername (data_username d) = Inr v \<and> \<not> isUsernameTaken ex_state v)"
    by (auto simp: ex_say_def ustr_def)
  from connection_name_changes[where st=ex_state and i=ex_c1 and j=ex_c1 and now=3
      and r="ex_say ''hola''"] n g1
  have w2: "map_option username (getClient
      (handleMessage ex_state 3 ex_c1 (ex_say ''hola'')) ex_c1) = Some (Some (ustr ''Ana''))"
    by simp
  from w1 w2 show ?thesis by simp
qed

text \<open>
  Claim C6 as stated fails: the first connection has joined as Ana; a second join
  frame from the same connection, with the free name Bob, replaces the stored name.
\<close>

theorem second_join_renames_counterexample:
  "map_option username (getClient ex_state ex_c1) = Some (Some (ustr ''Ana''))
   \<and> map_option username
        (getClient (step ex_state (3, FrameReceived ex_c1 (ex_join ''Bob''))) ex_c1)
      = Some (Some (ustr ''Bob''))"
  by (simp add: eval_defs ex_defs)

text \<open>
  Claim C10 (sanitize is the identity on valid usernames). A name that
  \<open>validateUsername\<close> accepts is the trimmed input, holds none of the six escaped
  characters, and is returned unchanged by \<open>sanitize\<close>; so a successful join stores
  the trimmed input itself on the connection and puts it, unchanged, into the
  \<open>joined\<close> and \<open>userJoined\<close> payloads.
\<close>

theorem sanitize_identity_on_valid_usernames:
  assumes "validateUsername u = Inr v"
  shows "(\<exists>s. u = JStr s \<and> v = trim s)
    \<and> sanitize v = v
    \<and> 0x26 \<notin> set v \<and> 0x3C \<notin> set v \<and> 0x3E \<notin> set v \<and> 0x22 \<notin> set v \<and> 0x27 \<notin> set v
    \<and> 0x2F \<notin> set v
    \<and> (getClient st i = Some c \<and> data_username d = u \<and> \<not> isUsernameTaken st v \<longrightarrow>
          map_option username (getClient (handleJoin st now i d) i) = Some (Some v)
        \<and> handleJoin st now i d =
            (let st1 = st\<lparr>clients := AList.update i (c\<lparr>username := Some v, lastActivity := now\<rparr>)
                          (clients st)\<rparr>;
                 st2 = snd (sendToClient st1 i (JoinedP v (getActiveUsers st1)))
             in snd (broadcast st2 (UserJoinedP v now (getActiveUsers st1)) (Some i))))"
proof -
  from assms obtain s where s: "u = JStr s" "v = trim s" and ok: "list_all validPatternChar v"
    by (auto simp: validateUsername_Inr)
  have esc: "0x26 \<notin> set v \<and> 0x3C \<notin> set v \<and> 0x3E \<notin> set v \<and> 0x22 \<notin> set v \<and> 0x27 \<notin> set v
    \<and> 0x2F \<notin> set v"
    using ok validPatternChar_not_escaped by (fastforce simp: list_all_iff)
  have j: "getClient st i = Some c \<and> data_username d = u \<and> \<not> isUsernameTaken st v \<longrightarrow>
          map_option username (getClient (handleJoin st now i d) i) = Some (Some v)
        \<and> handleJoin st now i d =
            (let st1 = st\<lparr>clients := AList.update i (c\<lparr>username := Some v, lastActivity := now\<rparr>)
                          (clients st)\<rparr>;
                 st2 = snd (sendToClient st1 i (JoinedP v (getActiveUsers st1)))
             in snd (broadcast st2 (UserJoinedP v now (getActiveUsers st1)) (Some i)))"
  proof (intro impI, elim conjE)
    assume g: "getClient st i = Some c" and d: "data_username d = u"
      and f: "\<not> isUsernameTaken st v"
    have v: "validateUsername (data_username d) = Inr v" using assms d by simp
    show "map_option username (getClient (handleJoin st now i d) i) = Some (Some v)
        \<and> handleJoin st now i d =
            (let st1 = st\<lparr>clients := AList.update i (c\<lparr>username := Some v, lastActivity := now\<rparr>)
                          (clients st)\<rparr>;
                 st2 = snd (sendToClient st1 i (JoinedP v (getActiveUsers st1)))
             in snd (broadcast st2 (UserJoinedP v now (getActiveUsers st1)) (Some i)))"
      using username_handleJoin_ok[OF g v f, of now i] handleJoin_ok[OF g v f, of now]
      by simp
  qed
  from s sanitize_valid[OF assms] esc j show ?thesis by blast
qed

theorem sanitize_identity_on_valid_usernames_witness:
  "sanitize (ustr ''Eva_9-x'') = ustr ''Eva_9-x''
   \<and> map_option username (getClient
        (handleJoin ex_state 3 ex_c2 (Data (JStr (ustr ''join'')) (JStr (ustr ''  Eva_9-x '')) JUndefined))
        ex_c2) = Some (Some (ustr ''Eva_9-x''))
   \<and> sent (handleJoin ex_state 3 ex_c2 (Data (JStr (ustr ''join'')) (JStr (ustr ''  Eva_9-x '')) JUndefined))
     = sent ex_state @
       [(ex_c2, JoinedP (ustr ''Eva_9-x'') [(ustr ''Ana'', 0), (ustr ''Eva_9-x'', 1)]),
        (ex_c1, UserJoinedP (ustr ''Eva_9-x'') 3 [(ustr ''Ana'', 0), (ustr ''Eva_9-x'', 1)])]"
proof -
  have v: "validateUsername (JStr (ustr ''  Eva_9-x '')) = Inr (ustr ''Eva_9-x'')"
    by (simp add: eval_defs)
  have g2: "getClient ex_state ex_c2 =
      Some \<lparr>ws = ex_open, username = None, ip = ustr ''10.0.0.2'',
             connectedAt = 1, lastActivity = 1\<rparr>"
    by (simp add: eval_defs ex_defs)
  have f: "\<not> isUsernameTaken ex_state (ustr ''Eva_9-x'')"
    by (simp add: eval_defs ex_defs)
  have s: "sent (handleJoin ex_state 3 ex_c2 (Data (JStr (ustr ''join'')) (JStr (ustr ''  Eva_9-x '')) JUndefined))
     = sent ex_state @
       [(ex_c2, JoinedP (ustr ''Eva_9-x'') [(ustr ''Ana'', 0), (ustr ''Eva_9-x'', 1)]),
        (ex_c1, UserJoinedP (ustr ''Eva_9-x'') 3 [(ustr ''Ana'', 0), (ustr ''Eva_9-x'', 1)])]"
    by (simp add: eval_defs ex_defs)
  note T = sanitize_identity_on_valid_usernames[OF v, where st=ex_state and i=ex_c2 and now=3
      and d="Data (JStr (ustr ''join'')) (JStr (ustr ''  Eva_9-x '')) JUndefined"
      and c="\<lparr>ws = ex_open, username = None, ip = ustr ''10.0.0.2'',
             connectedAt = 1, lastActivity = 1\<rparr>"]
  have du: "data_username (Data (JStr (ustr ''join'')) (JStr (ustr ''  Eva_9-x '')) JUndefined)
      = JStr (ustr ''  Eva_9-x '')"
    by simp
  have sv: "sanitize (ustr ''Eva_9-x'') = ustr ''Eva_9-x''"
    using T by blast
  have un: "map_option username (getClient
        (handleJoin ex_state 3 ex_c2 (Data (JStr (ustr ''join'')) (JStr (ustr ''  Eva_9-x '')) JUndefined))
        ex_c2) = Some (Some (ustr ''Eva_9-x''))"
    using T g2 f du by blast
  from sv un s show ?thesis by blast
qed

lemma validPatternChar_set:
  "validPatternChar c \<longleftrightarrow>
     c \<in> {0x61..0x7A} \<union> {0x41..0x5A} \<union> {0x30..0x39}
         \<union> {0xE1, 0xE9, 0xED, 0xF3, 0xFA, 0xC1, 0xC9, 0xCD, 0xD3, 0xDA, 0xF1, 0xD1}
         \<union> {0x5F, 0x2D}
     \<or> isWhiteSpace c"
  unfolding validPatternChar_def by auto

lemma validateUsername_Inl:
  "(\<exists>e. validateUsername u = Inl e) \<longleftrightarrow> \<not> (\<exists>v. validateUsername u = Inr v)"
  by (cases "validateUsername u") auto

text \<open>
  Claim C7, as the code has it. \<open>validateUsername\<close> accepts exactly the strings whose
  trimmed form has 2 to 30 code units, each an ASCII letter, an ASCII digit, one of
  the twelve letters a-acute, e-acute, i-acute, o-acute, u-acute, their capitals,
  n-tilde and N-tilde, white space, underscore or hyphen, and returns the trimmed
  form; it rejects every other value (a value that is not a string included), and
  \<open>handleJoin\<close> then answers the sender with that error and changes nothing else.
\<close>

theorem username_validation:
  "(validateUsername u = Inr v \<longleftrightarrow>
      (\<exists>s. u = JStr s \<and> v = trim s \<and> 2 \<le> length (trim s) \<and> length (trim s) \<le> 30
         \<and> (\<forall>c\<in>set (trim s).
               c \<in> {0x61..0x7A} \<union> {0x41..0x5A} \<union> {0x30..0x39}
                   \<union> {0xE1, 0xE9, 0xED, 0xF3, 0xFA, 0xC1, 0xC9, 0xCD, 0xD3, 0xDA, 0xF1, 0xD1}
                   \<union> {0x5F, 0x2D}
               \<or> isWhiteSpace c)))
   \<and> ((\<exists>e. validateUsername (JStr s) = Inl e) \<longleftrightarrow>
        length (trim s) < 2 \<or> 30 < length (trim s)
        \<or> (\<exists>c\<in>set (trim s).
              \<not> (c \<in> {0x61..0x7A} \<union> {0x41..0x5A} \<union> {0x30..0x39}
                   \<union> {0xE1, 0xE9, 0xED, 0xF3, 0xFA, 0xC1, 0xC9, 0xCD, 0xD3, 0xDA, 0xF1, 0xD1}
                   \<union> {0x5F, 0x2D}
               \<or> isWhiteSpace c)))
   \<and> (getClient st i = Some cl \<and> validateUsername (data_username d) = Inl e \<longrightarrow>
        handleJoin st now i d = sendError st now i (MsgUsername e))"
proof -
  have a: "validateUsername u = Inr v \<longleftrightarrow>
      (\<exists>s. u = JStr s \<and> v = trim s \<and> 2 \<le> length (trim s) \<and> length (trim s) \<le> 30
         \<and> (\<forall>c\<in>set (trim s).
               c \<in> {0x61..0x7A} \<union> {0x41..0x5A} \<union> {0x30..0x39}
                   \<union> {0xE1, 0xE9, 0xED, 0xF3, 0xFA, 0xC1, 0xC9, 0xCD, 0xD3, 0xDA, 0xF1, 0xD1}
                   \<union> {0x5F, 0x2D}
               \<or> isWhiteSpace c))" for u v
    unfolding validateUsername_Inr list_all_iff validPatternChar_set
    by (simp add: MIN_USERNAME_LENGTH_def MAX_USERNAME_LENGTH_def)
  have b: "(\<exists>e. validateUsername (JStr s) = Inl e) \<longleftrightarrow>
        length (trim s) < 2 \<or> 30 < length (trim s)
        \<or> (\<exists>c\<in>set (trim s).
              \<not> (c \<in> {0x61..0x7A} \<union> {0x41..0x5A} \<union> {0x30..0x39}
                   \<union> {0xE1, 0xE9, 0xED, 0xF3, 0xFA, 0xC1, 0xC9, 0xCD, 0xD3, 0xDA, 0xF1, 0xD1}
                   \<union> {0x5F, 0x2D}
               \<or> isWhiteSpace c))"
    unfolding validateUsername_Inl a by auto
  have c: "getClient st i = Some cl \<and> validateUsername (data_username d) = Inl e \<longrightarrow>
        handleJoin st now i d = sendError st now i (MsgUsername e)"
    by (auto simp: handleJoin_invalid)
  from a[of u v] b c show ?thesis by blast
qed

theorem username_validation_witness:
  "validateUsername (JStr (ustr '' Ana_Mar-9 '')) = Inr (ustr ''Ana_Mar-9'')
   \<and> (\<exists>e. validateUsername (JStr (ustr ''a<b'')) = Inl e)"
proof -
  have t1: "trim (ustr '' Ana_Mar-9 '') = ustr ''Ana_Mar-9''"
    by (simp add: trim_def isWhiteSpace_def ustr_def)
  have t2: "trim (ustr ''a<b'') = ustr ''a<b''"
    by (simp add: trim_def isWhiteSpace_def ustr_def)
  have w1: "validateUsername (JStr (ustr '' Ana_Mar-9 '')) = Inr (ustr ''Ana_Mar-9'')"
    using username_validation[of "JStr (ustr '' Ana_Mar-9 '')" "ustr ''Ana_Mar-9''"] t1
    by (simp add: ustr_def)
  have w2: "\<exists>e. validateUsername (JStr (ustr ''a<b'')) = Inl e"
    using username_validation[where s="ustr ''a<b''"] t2
    by (simp add: ustr_def isWhiteSpace_def)
  from w1 w2 show ?thesis by simp
qed

text \<open>
  Claim C7 as stated fails: the two-character string a-grave b is made of letters
  (one accented), yet it is rejected for its characters.
\<close>

theorem accented_letter_rejected_counterexample:
  "list_all spec_username_char [0xE0, 0x62] \<and> length [0xE0, 0x62 :: jchar] = 2
   \<and> validateUsername (JStr [0xE0, 0x62]) = Inl UsernameBadChars"
  by (simp add: spec_username_char_def spec_letter_def eval_defs)

subsection \<open>sanitize, character by character\<close>

lemma replaceAll_Nil [simp]: "replaceAll c r [] = []"
  by (simp add: replaceAll_def)

lemma replaceAll_Cons:
  "replaceAll c r (x # xs) = (if x = c then r else [x]) @ replaceAll c r xs"
  by (simp add: replaceAll_def)

lemma replaceAll_append: "replaceAll c r (xs @ ys) = replaceAll c r xs @ replaceAll c r ys"
  by (simp add: replaceAll_def)

lemma sanitize_Nil [simp]: "sanitize [] = []"
  by (simp add: sanitize_def)

lemma sanitize_append: "sanitize (xs @ ys) = sanitize xs @ sanitize ys"
  by (simp add: sanitize_def replaceAll_append)

lemma sanitize_single: "sanitize [c] = html_entity c"
  by (simp add: sanitize_def html_entity_def replaceAll_Cons ustr_def)

lemma sanitize_concat: "sanitize s = concat (map html_entity s)"
proof (induction s)
  case Nil
  then show ?case by simp
next
  case (Cons c s)
  have "sanitize (c # s) = sanitize ([c] @ s)" by simp
  also have "\<dots> = html_entity c @ sanitize s"
    unfolding sanitize_append by (simp add: sanitize_single)
  finally show ?case by (simp add: Cons.IH)
qed

lemma html_entity_clean: "0x3C \<notin> set (html_entity c) \<and> 0x3E \<notin> set (html_entity c)"
  by (simp add: html_entity_def ustr_def)

lemma sanitize_clean: "0x3C \<notin> set (sanitize s) \<and> 0x3E \<notin> set (sanitize s)"
  using html_entity_clean by (auto simp: sanitize_concat)

subsection \<open>The fields each operation leaves alone\<close>

lemma sendToClient_fields [simp]:
  "messageQueue (snd (sendToClient st i p)) = messageQueue st"
  "isProcessingQueue (snd (sendToClient st i p)) = isProcessingQueue st"
  "sleeping (snd (sendToClient st i p)) = sleeping st"
  "broadcasts (snd (sendToClient st i p)) = broadcasts st"
  "messageTracking (snd (sendToClient st i p)) = messageTracking st"
  by (simp_all add: sendToClient_def split: option.splits)

lemma sendToClient_sent:
  "\<exists>xs. sent (snd (sendToClient st i p)) = sent st @ xs \<and> set xs \<subseteq> {(i, p)}"
  by (simp add: sendToClient_def split: option.splits)

lemma sendError_fields [simp]:
  "messageQueue (sendError st now i e) = messageQueue st"
  "isProcessingQueue (sendError st now i e) = isProcessingQueue st"
  "sleeping (sendError st now i e) = sleeping st"
  "broadcasts (sendError st now i e) = broadcasts st"
  "messageTracking (sendError st now i e) = messageTracking st"
  by (simp_all add: sendError_def)

lemma broadcast_fields [simp]:
  "messageQueue (snd (broadcast st p x)) = messageQueue st"
  "isProcessingQueue (snd (broadcast st p x)) = isProcessingQueue st"
  "sleeping (snd (broadcast st p x)) = sleeping st"
  "broadcasts (snd (broadcast st p x)) = broadcasts st @ [p]"
  "messageTracking (snd (broadcast st p x)) = messageTracking st"
  by (simp_all add: broadcast_def split: prod.splits)

lemma broadcast_sent:
  "sent (snd (broadcast st p x))
     = sent st @ map (\<lambda>i. (i, p)) (snd (snd (broadcast_loop x (clients st))))"
  by (simp add: broadcast_def split: prod.splits)

lemma only_clients_addClient: "\<exists>cs. snd (addClient st now i sock addr) = st\<lparr>clients := cs\<rparr>"
  by (auto simp: addClient_def)

lemma only_clients_removeClient: "\<exists>cs. snd (removeClient st i) = st\<lparr>clients := cs\<rparr>"
  by (cases "getClient st i") (auto simp: removeClient_def intro: exI[of _ "clients st"])

lemma only_clients_setUsername: "\<exists>cs. snd (setUsername st now i n) = st\<lparr>clients := cs\<rparr>"
  by (cases "getClient st i") (auto simp: setUsername_def intro: exI[of _ "clients st"])

lemma only_clients_updateActivity: "\<exists>cs. updateActivity st now i = st\<lparr>clients := cs\<rparr>"
  by (cases "getClient st i") (auto simp: updateActivity_def intro: exI[of _ "clients st"])

lemma only_clients_setSocket: "\<exists>cs. setSocket st i sock = st\<lparr>clients := cs\<rparr>"
  by (cases "getClient st i") (auto simp: setSocket_def intro: exI[of _ "clients st"])

lemma only_clients_foldl_remove:
  "\<exists>cs. foldl (\<lambda>s i. snd (removeClient s i)) st ids = st\<lparr>clients := cs\<rparr>"
proof (induction ids arbitrary: st)
  case Nil
  show ?case by (auto intro: exI[of _ "clients st"])
next
  case (Cons i ids)
  obtain cs where 1: "snd (removeClient st i) = st\<lparr>clients := cs\<rparr>"
    using only_clients_removeClient by blast
  obtain cs' where "foldl (\<lambda>s i. snd (removeClient s i)) (st\<lparr>clients := cs\<rparr>) ids
      = st\<lparr>clients := cs, clients := cs'\<rparr>"
    using Cons.IH[of "st\<lparr>clients := cs\<rparr>"] by blast
  then show ?case using 1 by auto
qed

lemma only_clients_cleanup: "\<exists>cs. snd (cleanupDeadConnections st now) = st\<lparr>clients := cs\<rparr>"
  by (simp add: cleanupDeadConnections_def Let_def only_clients_foldl_remove)

subsection \<open>No markup in any chat frame\<close>

lemma amf_clients [simp]: "all_markup_free (st\<lparr>clients := cs\<rparr>) = all_markup_free st"
  by (simp add: all_markup_free_def)

lemma amf_sendToClient:
  "all_markup_free st \<Longrightarrow> markup_free p \<Longrightarrow> all_markup_free (snd (sendToClient st i p))"
  using sendToClient_sent[of st i p] by (auto simp: all_markup_free_def list_all_iff)

lemma amf_sendError: "all_markup_free st \<Longrightarrow> all_markup_free (sendError st now i e)"
  by (simp add: sendError_def amf_sendToClient)

lemma amf_broadcast:
  "all_markup_free st \<Longrightarrow> markup_free p \<Longrightarrow> all_markup_free (snd (broadcast st p x))"
  by (auto simp: all_markup_free_def list_all_iff broadcast_sent)

lemma amf_processLoop:
  "list_all queued_markup_free q \<Longrightarrow> all_markup_free (st\<lparr>messageQueue := []\<rparr>) \<Longrightarrow>
   all_markup_free (processLoop q st)"
proof (induction q st rule: processLoop.induct)
  case (1 st)
  then show ?case by (simp add: all_markup_free_def)
next
  case (2 m rest st)
  let ?p = "MessageP (m_username m) (m_content m) (m_timestamp m)"
  let ?st1 = "snd (broadcast (st\<lparr>messageQueue := rest\<rparr>) ?p None)"
  have mf: "markup_free ?p" using "2.prems"(1) by (simp add: queued_markup_free_def)
  have base: "all_markup_free (st\<lparr>messageQueue := rest\<rparr>)"
    using "2.prems" by (simp add: all_markup_free_def)
  have st1: "all_markup_free ?st1" using base mf by (rule amf_broadcast)
  show ?case
  proof (cases "rest \<noteq> [] \<and> MESSAGE_DELAY > 0")
    case True
    then show ?thesis using st1 by (simp add: Let_def all_markup_free_def)
  next
    case False
    have eq: "processLoop (m # rest) st = processLoop rest ?st1"
      using False by (auto simp: Let_def)
    have "all_markup_free (?st1\<lparr>messageQueue := []\<rparr>)"
      using st1 by (simp add: all_markup_free_def)
    moreover have "list_all queued_markup_free rest" using "2.prems"(1) by simp
    ultimately have "all_markup_free (processLoop rest ?st1)"
      using "2.IH"[OF refl False] by blast
    then show ?thesis by (simp only: eq)
  qed
qed

lemma amf_queueMessage:
  assumes "all_markup_free st" "queued_markup_free m"
  shows "all_markup_free (queueMessage st m)"
proof (cases "isProcessingQueue st")
  case True
  then show ?thesis using assms by (simp add: queueMessage_def all_markup_free_def)
next
  case False
  have "list_all queued_markup_free (messageQueue st @ [m])"
    using assms by (simp add: all_markup_free_def)
  moreover have "all_markup_free (st\<lparr>messageQueue := messageQueue st @ [m], isProcessingQueue := True,
      messageQueue := []\<rparr>)"
    using assms by (simp add: all_markup_free_def)
  ultimately show ?thesis using False
    by (simp add: queueMessage_def processMessageQueue_def amf_processLoop)
qed

lemma amf_resume:
  assumes "all_markup_free st"
  shows "all_markup_free (resume st)"
proof (cases "sleeping st > 0")
  case True
  have "list_all queued_markup_free (messageQueue st)"
    using assms by (simp add: all_markup_free_def)
  moreover have "all_markup_free (st\<lparr>sleeping := sleeping st - 1, messageQueue := []\<rparr>)"
    using assms by (simp add: all_markup_free_def)
  ultimately have "all_markup_free (processLoop (messageQueue st) (st\<lparr>sleeping := sleeping st - 1\<rparr>))"
    by (rule amf_processLoop)
  then show ?thesis using True by (simp add: resume_def)
next
  case False
  then show ?thesis using assms by (simp add: resume_def)
qed

lemma amf_handleChatMessage:
  assumes a: "all_markup_free st"
  shows "all_markup_free (handleChatMessage st now i d)"
proof -
  have q: "queued_markup_free (Message i n (sanitize t) now)" for n t
    using sanitize_clean[of t] by (simp add: queued_markup_free_def)
  have mt: "all_markup_free (st\<lparr>messageTracking := x\<rparr>)" for x
    using a by (simp add: all_markup_free_def)
  show ?thesis
    by (simp add: handleChatMessage_def Let_def a amf_sendError amf_queueMessage q mt
        split: option.splits sum.splits prod.splits)
qed

lemma amf_handleJoin:
  assumes a: "all_markup_free st"
  shows "all_markup_free (handleJoin st now i d)"
proof -
  have su: "all_markup_free (snd (setUsername st now i n))" for n
    using only_clients_setUsername[of st now i n] a by auto
  show ?thesis
    by (simp add: handleJoin_def Let_def a su amf_sendError amf_sendToClient amf_broadcast
        split: option.splits sum.splits)
qed

lemma amf_handleDisconnect:
  assumes a: "all_markup_free st"
  shows "all_markup_free (handleDisconnect st now i)"
proof -
  have r: "all_markup_free s \<Longrightarrow> all_markup_free (snd (removeClient s i))" for s
    using only_clients_removeClient[of s i] by auto
  show ?thesis
    unfolding handleDisconnect_def Let_def
    by (rule r) (simp add: a amf_broadcast split: option.splits)
qed

lemma amf_handleMessage:
  assumes a: "all_markup_free st"
  shows "all_markup_free (handleMessage st now i r)"
proof -
  have u: "all_markup_free (updateActivity st now i)"
    using only_clients_updateActivity[of st now i] a by auto
  have p: "all_markup_free (handlePing s now i)" if "all_markup_free s" for s
    using that by (simp add: handlePing_def amf_sendToClient)
  show ?thesis
    by (simp add: handleMessage_cases a u p amf_sendError amf_handleJoin amf_handleChatMessage
        split: raw.splits)
qed

lemma amf_step:
  assumes a: "all_markup_free st"
  shows "all_markup_free (step st ev)"
proof (cases ev)
  case (Pair now e)
  show ?thesis
  proof (cases e)
    case (Connection i sock addr)
    have "all_markup_free (snd (addClient st now i sock addr))"
      using only_clients_addClient[of st now i sock addr] a by auto
    then show ?thesis
      by (simp add: Pair Connection addClient_def amf_sendToClient)
  next
    case (FrameReceived i r)
    then show ?thesis by (simp add: Pair a amf_handleMessage)
  next
    case (SocketError i)
    then show ?thesis by (simp add: Pair a handleError_def amf_sendError split: option.splits)
  next
    case (SocketClosed i)
    then show ?thesis by (simp add: Pair a amf_handleDisconnect)
  next
    case CleanupTick
    then show ?thesis using only_clients_cleanup[of st now] a by (auto simp: Pair)
  next
    case (SocketChanged i sock)
    then show ?thesis using only_clients_setSocket[of st i sock] a by (auto simp: Pair)
  next
    case SleepDone
    then show ?thesis by (simp add: Pair a amf_resume)
  qed
qed

lemma amf_run: "all_markup_free st \<Longrightarrow> all_markup_free (run st evs)"
  unfolding run_def by (induction evs arbitrary: st) (simp_all add: amf_step)

lemma amf_initial: "all_markup_free initial"
  by (simp add: all_markup_free_def initial_def)

lemmas chat_eval_defs =
  handleChatMessage_def validateMessageContent_def checkLimit_def getClientIdentifier_def
  tracked_def queueMessage_def processMessageQueue_def ceil_div1000_def

lemma handleChatMessage_accepted:
  assumes "getClient st i = Some c" "username c = Some n" "n \<noteq> []"
    "validateMessageContent (data_content d) = Inr t"
    "allowed (fst (checkLimit (messageTracking st) now i (Some (ip c))))"
  shows "handleChatMessage st now i d =
     queueMessage (st\<lparr>messageTracking := snd (checkLimit (messageTracking st) now i (Some (ip c)))\<rparr>)
       (Message i n (sanitize t) now)"
  using assms
  by (cases "checkLimit (messageTracking st) now i (Some (ip c))")
     (simp add: handleChatMessage_def Let_def)

text \<open>
  Claim C4 (sanitization). \<open>sanitize\<close> replaces each of the six characters by its
  HTML entity and leaves every other character alone, so its result never holds
  \<open><\<close> or \<open>>\<close>; the script example becomes the escaped text. A chat message that
  is admitted is queued with the sanitized trimmed content, and in every state reached
  from the initial one no queued message, broadcast or sent chat frame holds a
  literal \<open><\<close> or \<open>>\<close> in its content.
\<close>

theorem sanitization:
  "sanitize s = concat (map html_entity s)
   \<and> 0x3C \<notin> set (sanitize s) \<and> 0x3E \<notin> set (sanitize s)
   \<and> sanitize (ustr ''<script>alert(1)</script>'')
       = ustr ''&lt;script&gt;alert(1)&lt;&#x2F;script&gt;''
   \<and> (getClient st i = Some c \<and> username c = Some n \<and> n \<noteq> []
        \<and> validateMessageContent (data_content d) = Inr t
        \<and> allowed (fst (checkLimit (messageTracking st) now i (Some (ip c)))) \<longrightarrow>
        handleChatMessage st now i d =
          queueMessage
            (st\<lparr>messageTracking := snd (checkLimit (messageTracking st) now i (Some (ip c)))\<rparr>)
            (Message i n (sanitize t) now))
   \<and> (all_markup_free st \<longrightarrow> all_markup_free (handleChatMessage st now i d))
   \<and> all_markup_free (run initial evs)"
proof -
  have ex: "sanitize (ustr ''<script>alert(1)</script>'')
       = ustr ''&lt;script&gt;alert(1)&lt;&#x2F;script&gt;''"
    by (simp add: sanitize_def replaceAll_def ustr_def)
  have r: "all_markup_free (run initial evs)"
    using amf_initial by (rule amf_run)
  show ?thesis
    using sanitize_concat[of s] sanitize_clean[of s] ex r
      handleChatMessage_accepted[of st i c n d t now] amf_handleChatMessage[of st now i d]
    by blast
qed

theorem sanitization_witness:
  "broadcasts (run initial (ex_events @ [(3, FrameReceived ex_c1 (ex_say ''<script>alert(1)</script>''))]))
     = broadcasts ex_state
       @ [MessageP (ustr ''Ana'') (ustr ''&lt;script&gt;alert(1)&lt;&#x2F;script&gt;'') 3]
   \<and> all_markup_free
       (run initial (ex_events @ [(3, FrameReceived ex_c1 (ex_say ''<script>alert(1)</script>''))]))"
proof -
  have b: "broadcasts (run initial (ex_events @ [(3, FrameReceived ex_c1 (ex_say ''<script>alert(1)</script>''))]))
     = broadcasts ex_state
       @ [MessageP (ustr ''Ana'') (ustr ''&lt;script&gt;alert(1)&lt;&#x2F;script&gt;'') 3]"
    by (simp add: eval_defs chat_eval_defs ex_defs)
  from sanitization[where evs="ex_events @ [(3, FrameReceived ex_c1 (ex_say ''<script>alert(1)</script>''))]"]
    b show ?thesis by blast
qed

subsection \<open>Distinct ids\<close>

lemma ids_unique_only_sent:
  "clients st' = clients st \<Longrightarrow> ids_unique st' = ids_unique st"
  by (simp add: ids_unique_def)

lemma ids_unique_step:
  assumes a: "ids_unique st"
  shows "ids_unique (step st ev)"
proof (cases ev)
  case (Pair now e)
  have d: "distinct (map fst (clients st))" using a by (simp add: ids_unique_def)
  have upd: "ids_unique (s\<lparr>clients := AList.update k v (clients s)\<rparr>)" if "ids_unique s" for s k v
    using that by (simp add: ids_unique_def distinct_update)
  have del: "ids_unique (snd (removeClient s k))" if "ids_unique s" for s k
    using that by (simp add: ids_unique_def removeClient_def distinct_delete split: option.splits)
  have ua: "ids_unique (updateActivity s now k)" if "ids_unique s" for s k
    using that upd by (simp add: updateActivity_def split: option.splits)
  have hj: "ids_unique (handleJoin s now k dd)" if "ids_unique s" for s k dd
    using that
    by (simp add: handleJoin_def Let_def setUsername_def ids_unique_def distinct_update
        split: option.splits sum.splits)
  have fr: "ids_unique (foldl (\<lambda>s i. snd (removeClient s i)) s ks)" if "ids_unique s" for s ks
    using that by (induction ks arbitrary: s) (simp_all add: del)
  show ?thesis
  proof (cases e)
    case (Connection i sock addr)
    then show ?thesis using d
      by (simp add: Pair addClient_def ids_unique_def distinct_update)
  next
    case (FrameReceived i r)
    have "ids_unique (handleMessage st now i r)"
      using ua[OF a, of i] hj[OF ua[OF a, of i]]
      by (simp add: handleMessage_cases ids_unique_def a[unfolded ids_unique_def]
          handlePing_def split: raw.splits)
    then show ?thesis by (simp add: Pair FrameReceived)
  next
    case (SocketError i)
    then show ?thesis using d by (simp add: Pair ids_unique_def)
  next
    case (SocketClosed i)
    have "ids_unique (handleDisconnect st now i)"
      unfolding handleDisconnect_def Let_def
      by (rule del) (simp add: ids_unique_def d split: option.splits)
    then show ?thesis by (simp add: Pair SocketClosed)
  next
    case CleanupTick
    then show ?thesis using fr[OF a] by (simp add: Pair cleanupDeadConnections_def Let_def)
  next
    case (SocketChanged i sock)
    then show ?thesis using upd[OF a] a by (simp add: Pair setSocket_def split: option.splits)
  next
    case SleepDone
    then show ?thesis using d by (simp add: Pair ids_unique_def)
  qed
qed

lemma ids_unique_run: "ids_unique st \<Longrightarrow> ids_unique (run st evs)"
  unfolding run_def by (induction evs arbitrary: st) (simp_all add: ids_unique_step)

lemma ids_unique_initial: "ids_unique initial"
  by (simp add: ids_unique_def initial_def)

subsection \<open>The roster of a leave notice\<close>

lemma activeUsers_names: "fst ` set (activeUsers cs) \<subseteq> set (names_of cs)"
  by (induction cs rule: activeUsers.induct) (auto split: option.splits)

lemma roster_is_rest:
  assumes "distinct (map fst cs)" "distinct (names_of cs)" "map_of cs i = Some c"
    "username c = Some n"
  shows "filter (\<lambda>u. fst u \<noteq> n) (activeUsers cs) = activeUsers (AList.delete i cs)"
  using assms
proof (induction cs rule: activeUsers.induct)
  case 1
  then show ?case by simp
next
  case (2 k0 c0 rest)
  show ?case
  proof (cases "k0 = i")
    case True
    then have c0: "c0 = c" using "2.prems"(3) by simp
    have "n \<notin> set (names_of rest)" using "2.prems"(2,4) c0 by simp
    then have "\<forall>u\<in>set (activeUsers rest). fst u \<noteq> n"
      using activeUsers_names[of rest] by auto
    then have keep: "filter (\<lambda>u. fst u \<noteq> n) (activeUsers rest) = activeUsers rest"
      by (simp add: filter_id_conv)
    have "i \<notin> fst ` set rest" using "2.prems"(1) True by auto
    then have "AList.delete i rest = rest" by simp
    then show ?thesis using True c0 "2.prems"(4) keep by auto
  next
    case False
    have m: "map_of rest i = Some c" using "2.prems"(3) False by simp
    have d1: "distinct (map fst rest)" using "2.prems"(1) by simp
    have d2: "distinct (names_of rest)" using "2.prems"(2) by (auto split: option.splits)
    have nin: "n \<in> set (names_of rest)"
      unfolding in_names_of using m "2.prems"(4) by (blast dest: map_of_SomeD)
    show ?thesis
    proof (cases "username c0")
      case None
      then show ?thesis using False "2.IH"(1)[OF None d1 d2 m "2.prems"(4)] by simp
    next
      case (Some n0)
      have ne: "n0 \<noteq> n" using "2.prems"(2) Some nin by auto
      show ?thesis
      proof (cases "n0 = []")
        case True
        then show ?thesis
          using False Some "2.IH"(3)[OF Some _ d1 d2 m "2.prems"(4)] by simp
      next
        case False2: False
        then show ?thesis
          using False Some ne "2.IH"(2)[OF Some False2 d1 d2 m "2.prems"(4)] by simp
      qed
    qed
  qed
qed

lemma broadcast_loop_filter:
  "snd (snd (broadcast_loop None cs))
     = map fst (filter (\<lambda>(j, c). readyState (ws c) = 1 \<and> \<not> sendThrows (ws c)) cs)"
proof (induction cs)
  case Nil
  show ?case by simp
next
  case (Cons a cs)
  obtain k c where a: "a = (k, c)" by (cases a)
  obtain s f g where bl: "broadcast_loop None cs = (s, f, g)"
    by (cases "broadcast_loop None cs") auto
  from Cons.IH have g: "g = map fst
      (filter (\<lambda>(j, c). readyState (ws c) = 1 \<and> \<not> sendThrows (ws c)) cs)"
    by (simp add: bl)
  show ?case by (simp add: a bl excluded_def g)
qed

lemma broadcast_loop_recipients:
  "set (snd (snd (broadcast_loop None cs)))
     = {j. \<exists>c. (j, c) \<in> set cs \<and> readyState (ws c) = 1 \<and> \<not> sendThrows (ws c)}"
  unfolding broadcast_loop_filter by force

lemma handleDisconnect_named:
  assumes "getClient st i = Some c" "username c = Some n" "n \<noteq> []"
  shows "handleDisconnect st now i =
     (snd (broadcast st (UserLeftP n now (filter (\<lambda>u. fst u \<noteq> n) (getActiveUsers st))) None))
       \<lparr>clients := AList.delete i (clients st)\<rparr>"
  using assms
  by (simp add: handleDisconnect_def Let_def removeClient_def getClient_def)

lemma handleDisconnect_unknown:
  "getClient st i = None \<Longrightarrow> handleDisconnect st now i = st"
  by (simp add: handleDisconnect_def removeClient_def)

lemma broadcast_loop_exclude_closed:
  assumes "\<forall>c'. (i, c') \<in> set cs \<longrightarrow> readyState (ws c') \<noteq> 1"
  shows "broadcast_loop (Some i) cs = broadcast_loop None cs"
  using assms
proof (induction cs)
  case Nil
  show ?case by simp
next
  case (Cons a cs)
  obtain k c where a: "a = (k, c)" by (cases a)
  have IH: "broadcast_loop (Some i) cs = broadcast_loop None cs"
    using Cons by simp
  have "k = i \<Longrightarrow> readyState (ws c) \<noteq> 1" using Cons.prems by (simp add: a)
  then show ?case
    by (cases "broadcast_loop None cs") (auto simp: a IH excluded_def)
qed

lemma entries_of_id:
  "ids_unique st \<Longrightarrow> getClient st i = Some c \<Longrightarrow> (i, c') \<in> set (clients st) \<Longrightarrow> c' = c"
  by (simp add: ids_unique_def getClient_def)

lemma entry_iff_getClient:
  "ids_unique st \<Longrightarrow> (j, c') \<in> set (clients st) \<longleftrightarrow> getClient st j = Some c'"
  by (simp add: ids_unique_def getClient_def)

text \<open>
  Claim C8 (disconnect behaviour). \<open>handleDisconnect\<close> is called from one place, the
  close handler of the connection's socket, and the transport reports a close only
  after it has set the socket's \<open>readyState\<close> to CLOSED; so the socket of the
  disconnecting connection is not open. For a connection with a name, in a state with
  distinct ids and distinct names (every reachable state is one): the handler does
  what a broadcast of the \<open>userLeft\<close> payload with that id excluded, followed by the
  removal of the connection, does. The roster of the payload is the list of active
  users of the registry without that connection; the frame goes to every other
  registered connection whose socket is open and takes it, and not to the
  disconnecting one; only after the broadcast is the connection removed. A second
  call for the same id changes nothing: no broadcast, no frame, the same registry.
\<close>

theorem disconnect_behaviour:
  assumes "getClient st i = Some c" "username c = Some n" "n \<noteq> []"
    and closed: "readyState (ws c) \<noteq> 1"
    and ids: "ids_unique st" and nms: "names_unique st"
  shows "handleDisconnect st now i
       = snd (removeClient
               (snd (broadcast st (UserLeftP n now (getActiveUsers (snd (removeClient st i))))
                      (Some i)))
               i)
    \<and> broadcasts (handleDisconnect st now i)
       = broadcasts st @ [UserLeftP n now (getActiveUsers (snd (removeClient st i)))]
    \<and> sent (handleDisconnect st now i)
       = sent st @ map (\<lambda>j. (j, UserLeftP n now (getActiveUsers (snd (removeClient st i)))))
                    (recipients st)
    \<and> i \<notin> set (recipients st)
    \<and> set (recipients st)
       = {j. j \<noteq> i \<and> (\<exists>c'. getClient st j = Some c' \<and> readyState (ws c') = 1
                              \<and> \<not> sendThrows (ws c'))}
    \<and> getActiveUsers (snd (removeClient st i)) = filter (\<lambda>u. fst u \<noteq> n) (getActiveUsers st)
    \<and> clients (handleDisconnect st now i) = AList.delete i (clients st)
    \<and> getClient (handleDisconnect st now i) i = None
    \<and> handleDisconnect (handleDisconnect st now i) later i = handleDisconnect st now i
    \<and> ids_unique (run initial evs) \<and> names_unique (run initial evs)"
proof -
  let ?roster = "getActiveUsers (snd (removeClient st i))"
  let ?p = "UserLeftP n now ?roster"
  have ro: "?roster = filter (\<lambda>u. fst u \<noteq> n) (getActiveUsers st)"
  proof -
    have "filter (\<lambda>u. fst u \<noteq> n) (activeUsers (clients st))
        = activeUsers (AList.delete i (clients st))"
      using assms(1,2) ids nms
      by (intro roster_is_rest) (simp_all add: ids_unique_def names_unique_iff getClient_def)
    then show ?thesis
      using assms(1) by (simp add: getActiveUsers_def removeClient_def)
  qed
  have only: "\<forall>c'. (i, c') \<in> set (clients st) \<longrightarrow> readyState (ws c') \<noteq> 1"
    using entries_of_id[OF ids assms(1)] closed by blast
  have ex: "broadcast st ?p (Some i) = broadcast st ?p None"
    by (simp add: broadcast_def broadcast_loop_exclude_closed[OF only])
  have hd0: "handleDisconnect st now i
      = (snd (broadcast st ?p None))\<lparr>clients := AList.delete i (clients st)\<rparr>"
    using handleDisconnect_named[OF assms(1-3), of now] by (simp only: ro)
  have spec_form: "handleDisconnect st now i = snd (removeClient (snd (broadcast st ?p (Some i))) i)"
    unfolding hd0 ex using assms(1) by (simp add: removeClient_def getClient_def)
  have b: "broadcasts (handleDisconnect st now i) = broadcasts st @ [?p]"
    by (simp add: hd0)
  have s: "sent (handleDisconnect st now i) = sent st @ map (\<lambda>j. (j, ?p)) (recipients st)"
    by (simp add: hd0 broadcast_sent recipients_def)
  have r: "set (recipients st)
       = {j. j \<noteq> i \<and> (\<exists>c'. getClient st j = Some c' \<and> readyState (ws c') = 1
                              \<and> \<not> sendThrows (ws c'))}"
  proof -
    have "set (recipients st)
        = {j. \<exists>c'. getClient st j = Some c' \<and> readyState (ws c') = 1 \<and> \<not> sendThrows (ws c')}"
      by (simp add: recipients_def broadcast_loop_recipients entry_iff_getClient[OF ids])
    also have "\<dots> = {j. j \<noteq> i \<and> (\<exists>c'. getClient st j = Some c' \<and> readyState (ws c') = 1
                              \<and> \<not> sendThrows (ws c'))}"
      using assms(1) closed by auto
    finally show ?thesis .
  qed
  have notin: "i \<notin> set (recipients st)"
    unfolding r by simp
  have cl: "clients (handleDisconnect st now i) = AList.delete i (clients st)"
    by (simp add: hd0)
  have gone: "getClient (handleDisconnect st now i) i = None"
    by (simp add: getClient_def cl delete_conv')
  have twice: "handleDisconnect (handleDisconnect st now i) later i = handleDisconnect st now i"
    using gone by (rule handleDisconnect_unknown)
  have reach: "ids_unique (run initial evs) \<and> names_unique (run initial evs)"
    using ids_unique_run[OF ids_unique_initial] names_unique_run[OF names_unique_initial]
    by blast
  from spec_form b s notin r ro cl gone twice reach show ?thesis by blast
qed

lemmas closing_eval_defs = ex_closing_def ex_closed_def setSocket_def

theorem disconnect_behaviour_witness:
  "sent (handleDisconnect ex_closing 5 ex_c1)
     = sent ex_closing @ [(ex_c2, UserLeftP (ustr ''Ana'') 5 [(ustr ''Eva'', 1)])]
   \<and> broadcasts (handleDisconnect ex_closing 5 ex_c1)
     = broadcasts ex_closing @ [UserLeftP (ustr ''Ana'') 5 [(ustr ''Eva'', 1)]]
   \<and> getClient (handleDisconnect ex_closing 5 ex_c1) ex_c1 = None
   \<and> handleDisconnect (handleDisconnect ex_closing 5 ex_c1) 6 ex_c1
       = handleDisconnect ex_closing 5 ex_c1"
proof -
  have g1: "getClient ex_closing ex_c1 =
      Some \<lparr>ws = ex_closed, username = Some (ustr ''Ana''), ip = ustr ''10.0.0.1'',
             connectedAt = 0, lastActivity = 2\<rparr>"
    by (simp add: eval_defs ex_defs closing_eval_defs)
  have u: "username \<lparr>ws = ex_closed, username = Some (ustr ''Ana''), ip = ustr ''10.0.0.1'',
             connectedAt = 0, lastActivity = 2\<rparr> = Some (ustr ''Ana'')"
    by simp
  have n: "ustr ''Ana'' \<noteq> []" by (simp add: ustr_def)
  have cl: "readyState (ws \<lparr>ws = ex_closed, username = Some (ustr ''Ana''), ip = ustr ''10.0.0.1'',
             connectedAt = 0, lastActivity = 2\<rparr>) \<noteq> 1"
    by (simp add: ex_closed_def)
  have ids: "ids_unique ex_closing"
    unfolding ex_closing_def using ids_unique_initial by (rule ids_unique_run)
  have nms: "names_unique ex_closing"
    unfolding ex_closing_def using names_unique_initial by (rule names_unique_run)
  have ro: "getActiveUsers (snd (removeClient ex_closing ex_c1)) = [(ustr ''Eva'', 1)]"
    by (simp add: eval_defs ex_defs closing_eval_defs removeClient_def)
  have rc: "recipients ex_closing = [ex_c2]"
    by (simp add: eval_defs ex_defs closing_eval_defs recipients_def)
  note T = disconnect_behaviour[OF g1 u n cl ids nms, where now=5 and later=6 and evs="[]"]
  have "sent (handleDisconnect ex_closing 5 ex_c1)
     = sent ex_closing
       @ map (\<lambda>j. (j, UserLeftP (ustr ''Ana'') 5 (getActiveUsers (snd (removeClient ex_closing ex_c1)))))
           (recipients ex_closing)"
    using T by blast
  then have w1: "sent (handleDisconnect ex_closing 5 ex_c1)
     = sent ex_closing @ [(ex_c2, UserLeftP (ustr ''Ana'') 5 [(ustr ''Eva'', 1)])]"
    by (simp only: ro rc list.map)
  from T have w2: "broadcasts (handleDisconnect ex_closing 5 ex_c1)
     = broadcasts ex_closing @ [UserLeftP (ustr ''Ana'') 5 [(ustr ''Eva'', 1)]]"
    unfolding ro by blast
  from T have w3: "getClient (handleDisconnect ex_closing 5 ex_c1) ex_c1 = None"
    by blast
  from T have w4: "handleDisconnect (handleDisconnect ex_closing 5 ex_c1) 6 ex_c1
       = handleDisconnect ex_closing 5 ex_c1"
    by blast
  from w1 w2 w3 w4 show ?thesis by blast
qed

subsection \<open>The delivery queue\<close>

lemma recipients_clients: "clients st' = clients st \<Longrightarrow> recipients st' = recipients st"
  by (simp add: recipients_def)

lemma frames_clients: "clients st' = clients st \<Longrightarrow> frames st' = frames st"
  by (rule ext) (simp add: frames_def recipients_def)

lemma broadcast_None_sent: "sent (snd (broadcast st p None)) = sent st @ frames st p"
  by (simp add: broadcast_sent frames_def recipients_def)

lemma processLoop_trace:
  "\<exists>xs. broadcasts (processLoop q st) = broadcasts st @ xs
      \<and> sent (processLoop q st) = sent st @ concat (map (frames st) xs)
      \<and> xs @ map outbound (messageQueue (processLoop q st)) = map outbound q"
proof (induction q st rule: processLoop.induct)
  case (1 st)
  show ?case by simp
next
  case (2 m rest st)
  let ?st1 = "snd (broadcast (st\<lparr>messageQueue := rest\<rparr>) (outbound m) None)"
  have b1: "broadcasts ?st1 = broadcasts st @ [outbound m]" by simp
  have s1: "sent ?st1 = sent st @ frames st (outbound m)"
    by (simp add: broadcast_None_sent frames_def recipients_def)
  have f1: "frames ?st1 = frames st" by (rule frames_clients) simp
  show ?case
  proof (cases "rest \<noteq> [] \<and> MESSAGE_DELAY > 0")
    case True
    then have eq: "processLoop (m # rest) st = ?st1\<lparr>sleeping := sleeping ?st1 + 1\<rparr>"
      by (simp add: Let_def outbound_def)
    show ?thesis
      unfolding eq by (rule exI[of _ "[outbound m]"]) (simp add: s1)
  next
    case False
    then have eq: "processLoop (m # rest) st = processLoop rest ?st1"
      by (auto simp: Let_def outbound_def)
    from "2.IH"[OF refl False[unfolded outbound_def]]
    obtain xs where xs: "broadcasts (processLoop rest ?st1) = broadcasts ?st1 @ xs"
      "sent (processLoop rest ?st1) = sent ?st1 @ concat (map (frames ?st1) xs)"
      "xs @ map outbound (messageQueue (processLoop rest ?st1)) = map outbound rest"
      unfolding outbound_def by blast
    show ?thesis
      unfolding eq
      by (rule exI[of _ "outbound m # xs"]) (simp add: xs b1 s1 f1)
  qed
qed

lemma queue_step_trace:
  "\<exists>xs. broadcasts (queue_step st op) = broadcasts st @ xs
      \<and> sent (queue_step st op) = sent st @ concat (map (frames st) xs)
      \<and> xs @ map outbound (messageQueue (queue_step st op))
          = map outbound (messageQueue st @ enqueued [op])"
proof (cases op)
  case (Enqueue m)
  show ?thesis
  proof (cases "isProcessingQueue st")
    case True
    then show ?thesis by (simp add: Enqueue queueMessage_def)
  next
    case False
    let ?s = "st\<lparr>messageQueue := messageQueue st @ [m], isProcessingQueue := True\<rparr>"
    have eq: "queue_step st op = processLoop (messageQueue st @ [m]) ?s"
      using False by (simp add: Enqueue queueMessage_def processMessageQueue_def)
    have f: "frames ?s = frames st" by (rule frames_clients) simp
    from processLoop_trace[of "messageQueue st @ [m]" ?s] show ?thesis
      unfolding eq f by (simp add: Enqueue)
  qed
next
  case TimerFires
  show ?thesis
  proof (cases "sleeping st > 0")
    case True
    let ?s = "st\<lparr>sleeping := sleeping st - 1\<rparr>"
    have eq: "queue_step st op = processLoop (messageQueue st) ?s"
      using True by (simp add: TimerFires resume_def)
    have f: "frames ?s = frames st" by (rule frames_clients) simp
    from processLoop_trace[of "messageQueue st" ?s] show ?thesis
      unfolding eq f by (simp add: TimerFires)
  next
    case False
    then show ?thesis by (simp add: TimerFires resume_def)
  qed
qed

lemma clients_queue_step [simp]: "clients (queue_step st op) = clients st"
  by (cases op) simp_all

lemma enqueued_append: "enqueued (xs @ ys) = enqueued xs @ enqueued ys"
  by (induction xs rule: enqueued.induct) simp_all

lemma queue_run_trace:
  "\<exists>xs. broadcasts (foldl queue_step st ops) = broadcasts st @ xs
      \<and> sent (foldl queue_step st ops) = sent st @ concat (map (frames st) xs)
      \<and> xs @ map outbound (messageQueue (foldl queue_step st ops))
          = map outbound (messageQueue st @ enqueued ops)"
proof (induction ops arbitrary: st)
  case Nil
  show ?case by simp
next
  case (Cons op ops)
  let ?s1 = "queue_step st op"
  obtain xs where xs: "broadcasts ?s1 = broadcasts st @ xs"
    "sent ?s1 = sent st @ concat (map (frames st) xs)"
    "xs @ map outbound (messageQueue ?s1) = map outbound (messageQueue st @ enqueued [op])"
    using queue_step_trace[of st op] by blast
  obtain ys where ys: "broadcasts (foldl queue_step ?s1 ops) = broadcasts ?s1 @ ys"
    "sent (foldl queue_step ?s1 ops) = sent ?s1 @ concat (map (frames ?s1) ys)"
    "ys @ map outbound (messageQueue (foldl queue_step ?s1 ops))
       = map outbound (messageQueue ?s1 @ enqueued ops)"
    using Cons.IH[of ?s1] by blast
  have f: "frames ?s1 = frames st" by (rule frames_clients) simp
  let ?Q = "map outbound (messageQueue (foldl queue_step ?s1 ops))"
  have "(xs @ ys) @ ?Q = xs @ (ys @ ?Q)" by simp
  also have "\<dots> = xs @ map outbound (messageQueue ?s1 @ enqueued ops)"
    by (simp only: ys(3))
  also have "\<dots> = (xs @ map outbound (messageQueue ?s1)) @ map outbound (enqueued ops)"
    by simp
  also have "\<dots> = map outbound (messageQueue st @ enqueued [op]) @ map outbound (enqueued ops)"
    by (simp only: xs(3))
  also have "\<dots> = map outbound (messageQueue st @ enqueued (op # ops))"
    by (cases op) simp_all
  finally have "(xs @ ys) @ ?Q = map outbound (messageQueue st @ enqueued (op # ops))" .
  then show ?case
    using xs(1,2) ys(1,2) unfolding f
    by (intro exI[of _ "xs @ ys"]) simp
qed

subsection \<open>One activation at a time\<close>

lemma single_drain_clients [simp]: "single_drain (st\<lparr>clients := cs\<rparr>) = single_drain st"
  by (simp add: single_drain_def)

lemma idle_clients [simp]: "idle (st\<lparr>clients := cs\<rparr>) = idle st"
  by (simp add: idle_def)

lemma idle_single_drain: "idle st \<Longrightarrow> single_drain st"
  by (simp add: idle_def single_drain_def)

lemma single_drain_processLoop:
  "sleeping st = 0 \<Longrightarrow> isProcessingQueue st \<Longrightarrow> single_drain (processLoop q st)"
proof (induction q st rule: processLoop.induct)
  case (1 st)
  then show ?case by (simp add: single_drain_def)
next
  case (2 m rest st)
  let ?st1 = "snd (broadcast (st\<lparr>messageQueue := rest\<rparr>)
      (MessageP (m_username m) (m_content m) (m_timestamp m)) None)"
  show ?case
  proof (cases "rest \<noteq> [] \<and> MESSAGE_DELAY > 0")
    case True
    then show ?thesis using "2.prems" by (simp add: Let_def single_drain_def)
  next
    case False
    then have eq: "processLoop (m # rest) st = processLoop rest ?st1"
      by (auto simp: Let_def)
    have "single_drain (processLoop rest ?st1)"
      using "2.IH"[OF refl False] "2.prems" by simp
    then show ?thesis by (simp only: eq)
  qed
qed

lemma single_drain_queueMessage:
  assumes "single_drain st"
  shows "single_drain (queueMessage st m)"
proof (cases "isProcessingQueue st")
  case True
  then show ?thesis using assms by (simp add: queueMessage_def single_drain_def)
next
  case False
  then have "sleeping st = 0" using assms by (auto simp: single_drain_def)
  then show ?thesis using False
    by (simp add: queueMessage_def processMessageQueue_def single_drain_processLoop)
qed

lemma single_drain_resume:
  assumes "single_drain st"
  shows "single_drain (resume st)"
proof (cases "sleeping st > 0")
  case True
  then have "sleeping st = 1" "isProcessingQueue st"
    using assms by (auto simp: single_drain_def)
  then show ?thesis
    by (simp add: resume_def single_drain_processLoop)
next
  case False
  then show ?thesis using assms by (simp add: resume_def)
qed

lemma single_drain_queue_run:
  "single_drain st \<Longrightarrow> single_drain (foldl queue_step st ops)"
proof (induction ops arbitrary: st)
  case Nil
  then show ?case by simp
next
  case (Cons op ops)
  have "single_drain (queue_step st op)"
    using Cons.prems by (cases op) (simp_all add: single_drain_queueMessage single_drain_resume)
  then show ?case using Cons.IH by simp
qed

lemma idle_queueMessage:
  assumes "idle st"
  shows "idle (queueMessage st m)"
  using assms
  by (simp add: idle_def queueMessage_def processMessageQueue_def Let_def)

lemma idle_only_queue_fields:
  "messageQueue st' = messageQueue st \<Longrightarrow> isProcessingQueue st' = isProcessingQueue st \<Longrightarrow>
   sleeping st' = sleeping st \<Longrightarrow> idle st' = idle st"
  by (simp add: idle_def)

lemma idle_handleChatMessage:
  assumes a: "idle st"
  shows "idle (handleChatMessage st now i d)"
proof -
  have mt: "idle (st\<lparr>messageTracking := x\<rparr>)" for x
    using a by (simp add: idle_def)
  have e: "idle (sendError s now i msg)" if "idle s" for s msg
    using that by (simp add: idle_def)
  show ?thesis
    by (simp add: handleChatMessage_def Let_def a e mt idle_queueMessage
        split: option.splits sum.splits prod.splits)
qed

lemma idle_handleJoin:
  assumes a: "idle st"
  shows "idle (handleJoin st now i d)"
proof -
  have su: "idle (snd (setUsername st now i n))" for n
    using only_clients_setUsername[of st now i n] a by auto
  have e: "idle (sendError s now i msg)" if "idle s" for s msg
    using that by (simp add: idle_def)
  have sb: "idle (snd (broadcast (snd (sendToClient s i p)) p' x))" if "idle s" for s p p' x
    using that by (simp add: idle_def)
  show ?thesis
    by (simp add: handleJoin_def Let_def a su e sb split: option.splits sum.splits)
qed

lemma idle_handleDisconnect:
  assumes a: "idle st"
  shows "idle (handleDisconnect st now i)"
proof -
  have r: "idle s \<Longrightarrow> idle (snd (removeClient s i))" for s
    using only_clients_removeClient[of s i] by auto
  have b: "idle (snd (broadcast st p x))" for p x
    using a by (simp add: idle_def)
  show ?thesis
    unfolding handleDisconnect_def Let_def
    by (rule r) (simp add: a b split: option.splits)
qed

lemma idle_handleMessage:
  assumes a: "idle st"
  shows "idle (handleMessage st now i r)"
proof -
  have u: "idle (updateActivity st now i)"
    using only_clients_updateActivity[of st now i] a by auto
  have e: "idle (sendError s now i msg)" if "idle s" for s msg
    using that by (simp add: idle_def)
  have p: "idle (handlePing s now i)" if "idle s" for s
    using that by (simp add: handlePing_def idle_def)
  show ?thesis
    by (simp add: handleMessage_cases a u p e idle_handleJoin idle_handleChatMessage
        split: raw.splits)
qed

lemma idle_step:
  assumes a: "idle st"
  shows "idle (step st ev)"
proof (cases ev)
  case (Pair now e)
  show ?thesis
  proof (cases e)
    case (Connection i sock addr)
    have "idle (snd (addClient st now i sock addr))"
      using only_clients_addClient[of st now i sock addr] a by auto
    then show ?thesis
      by (simp add: Pair Connection addClient_def idle_def)
  next
    case (FrameReceived i r)
    then show ?thesis by (simp add: Pair a idle_handleMessage)
  next
    case (SocketError i)
    then show ?thesis using a
      by (simp add: Pair handleError_def idle_def split: option.splits)
  next
    case (SocketClosed i)
    then show ?thesis by (simp add: Pair a idle_handleDisconnect)
  next
    case CleanupTick
    then show ?thesis using only_clients_cleanup[of st now] a by (auto simp: Pair)
  next
    case (SocketChanged i sock)
    then show ?thesis using only_clients_setSocket[of st i sock] a by (auto simp: Pair)
  next
    case SleepDone
    then show ?thesis using a by (simp add: Pair resume_def idle_def)
  qed
qed

lemma idle_run: "idle st \<Longrightarrow> idle (run st evs)"
  unfolding run_def by (induction evs arbitrary: st) (simp_all add: idle_step)

lemma idle_initial: "idle initial"
  by (simp add: idle_def initial_def)

text \<open>
  Claim C3 (FIFO delivery with a single drain). For any sequence of calls of
  \<open>queueMessage\<close> and firings of the delay timer, from any state: the broadcasts
  performed, followed by the messages still queued, are the messages that were queued
  at the start followed by the enqueued ones, in the order of enqueueing; so a message
  enqueued earlier is broadcast earlier. Each broadcast is one synchronous call, and
  the frames it sends stand together in the list of sent frames, before those of the
  next broadcast. At most one activation of the draining loop exists at any time: the
  invariant \<open>single_drain\<close> (at most one suspended activation, the flag set exactly
  while it exists, suspended in the delay only with a non-empty queue) is kept by every
  queue operation, and every state reached from the initial one by the transport's
  events has no activation and an empty queue.
\<close>

theorem fifo_single_drain:
  "(\<exists>xs. broadcasts (foldl queue_step st ops) = broadcasts st @ xs
        \<and> sent (foldl queue_step st ops) = sent st @ concat (map (frames st) xs)
        \<and> xs @ map outbound (messageQueue (foldl queue_step st ops))
            = map outbound (messageQueue st @ enqueued ops))
   \<and> (single_drain st \<longrightarrow> single_drain (foldl queue_step st ops))
   \<and> idle (run initial evs) \<and> single_drain (run initial evs)"
proof -
  have i: "idle (run initial evs)"
    using idle_initial by (rule idle_run)
  show ?thesis
    using queue_run_trace[of st ops] single_drain_queue_run[of st ops] i idle_single_drain[OF i]
    by blast
qed

theorem fifo_single_drain_witness:
  "single_drain ex_draining
   \<and> broadcasts (foldl queue_step ex_draining [Enqueue ex_m2, TimerFires, TimerFires])
       = broadcasts ex_draining @ [outbound ex_m1, outbound ex_m2]
   \<and> messageQueue (foldl queue_step ex_draining [Enqueue ex_m2, TimerFires]) = [ex_m2]
   \<and> sleeping (foldl queue_step ex_draining [Enqueue ex_m2, TimerFires]) = 1
   \<and> single_drain (foldl queue_step ex_draining [Enqueue ex_m2, TimerFires, TimerFires])"
proof -
  have sd: "single_drain ex_draining"
    by (simp add: single_drain_def ex_draining_def)
  have b: "broadcasts (foldl queue_step ex_draining [Enqueue ex_m2, TimerFires, TimerFires])
       = broadcasts ex_draining @ [outbound ex_m1, outbound ex_m2]"
    by (simp add: ex_draining_def queueMessage_def resume_def outbound_def Let_def
        MESSAGE_DELAY_def)
  have q: "messageQueue (foldl queue_step ex_draining [Enqueue ex_m2, TimerFires]) = [ex_m2]"
    "sleeping (foldl queue_step ex_draining [Enqueue ex_m2, TimerFires]) = 1"
    by (simp_all add: ex_draining_def queueMessage_def resume_def Let_def MESSAGE_DELAY_def)
  from fifo_single_drain[of ex_draining "[Enqueue ex_m2, TimerFires, TimerFires]"] sd
  have "single_drain (foldl queue_step ex_draining [Enqueue ex_m2, TimerFires, TimerFires])"
    by blast
  with sd b q show ?thesis by blast
qed

end
